theory Spec2Isabelle
  imports Main "HOL-Library.Word" "HOL-Library.Sublist" "HOL-Library.AList"
begin

section \<open>JavaScript strings\<close>

text \<open>
  A JavaScript string is a sequence of 16-bit code units. Cells, lines, delimiters and
  labels are all such strings. \<open>js\<close> embeds an ASCII literal.
\<close>

type_synonym jschar = "16 word"
type_synonym jsstring = "jschar list"

definition js :: "string \<Rightarrow> jsstring" where
  "js s = map of_char s"

definition TAB :: jschar where "TAB = 0x09"
definition NL :: jschar where "NL = 0x0A"
definition CR :: jschar where "CR = 0x0D"
definition SP :: jschar where "SP = 0x20"
definition SEMI :: jschar where "SEMI = 0x3B"
definition PIPE :: jschar where "PIPE = 0x7C"
definition BACKSLASH :: jschar where "BACKSLASH = 0x5C"

text \<open>
  The code units that \<open>String.prototype.trim\<close> strips and that the regular expression
  class \<open>\s\<close> matches (ECMAScript WhiteSpace and LineTerminator; the two sets coincide).
\<close>

definition isWhiteSpace :: "jschar \<Rightarrow> bool" where
  "isWhiteSpace c =
     (c = 0x09 \<or> c = 0x0A \<or> c = 0x0B \<or> c = 0x0C \<or> c = 0x0D \<or> c = 0x20 \<or> c = 0xA0
      \<or> c = 0x1680 \<or> (0x2000 \<le> c \<and> c \<le> 0x200A) \<or> c = 0x2028 \<or> c = 0x2029
      \<or> c = 0x202F \<or> c = 0x205F \<or> c = 0x3000 \<or> c = 0xFEFF)"

text \<open>\<open>s.trim()\<close>\<close>

definition trim :: "jsstring \<Rightarrow> jsstring" where
  "trim s = rev (dropWhile isWhiteSpace (rev (dropWhile isWhiteSpace s)))"

text \<open>\<open>s.replace(/\s+/g, " ")\<close>: every maximal run of white space becomes one space.\<close>

function collapseWhiteSpace :: "jsstring \<Rightarrow> jsstring" where
  "collapseWhiteSpace [] = []"
| "collapseWhiteSpace (c # cs) =
     (if isWhiteSpace c then SP # collapseWhiteSpace (dropWhile isWhiteSpace cs)
      else c # collapseWhiteSpace cs)"
  by pat_completeness auto
termination
  by (relation "measure length") (auto simp: length_dropWhile_le less_Suc_eq_le)

text \<open>
  \<open>s.split(sep)\<close> for a string separator: the leftmost occurrences of \<open>sep\<close>, not
  overlapping, cut the string; \<open>acc\<close> holds the current piece, reversed. An empty
  separator cuts the string into its code units.
\<close>

function splitOn :: "'a list \<Rightarrow> 'a list \<Rightarrow> 'a list \<Rightarrow> 'a list list" where
  "splitOn sep acc [] = [rev acc]"
| "splitOn sep acc (x # xs) =
     (if sep \<noteq> [] \<and> prefix sep (x # xs)
      then rev acc # splitOn sep [] (drop (length sep) (x # xs))
      else splitOn sep (x # acc) xs)"
  by pat_completeness auto
termination
  by (relation "measure (\<lambda>(sep, acc, s). length s)") auto

definition jsSplit :: "'a list \<Rightarrow> 'a list \<Rightarrow> 'a list list" where
  "jsSplit s sep = (if sep = [] then map (\<lambda>c. [c]) s else splitOn sep [] s)"

text \<open>
  \<open>s.split(/ {2,}/)\<close>: the pattern is greedy, so a match at the first space of a run of
  two or more spaces takes the whole run; a lone space stays in the piece.
\<close>

function splitSpaceRuns :: "jsstring \<Rightarrow> jsstring \<Rightarrow> jsstring list" where
  "splitSpaceRuns acc [] = [rev acc]"
| "splitSpaceRuns acc [x] = [rev (x # acc)]"
| "splitSpaceRuns acc (x # y # ys) =
     (if x = SP \<and> y = SP
      then rev acc # splitSpaceRuns [] (dropWhile (\<lambda>c. c = SP) ys)
      else splitSpaceRuns (x # acc) (y # ys))"
  by pat_completeness auto
termination
  by (relation "measure (\<lambda>(acc, s). length s)")
     (auto simp: length_dropWhile_le less_Suc_eq_le le_SucI)

text \<open>\<open>xs.join(sep)\<close>\<close>

fun joinWith :: "'a list \<Rightarrow> 'a list list \<Rightarrow> 'a list" where
  "joinWith sep [] = []"
| "joinWith sep [x] = x"
| "joinWith sep (x # y # ys) = x @ sep @ joinWith sep (y # ys)"

text \<open>
  \<open>Math.max(...xs)\<close> on array lengths. Every call in the program is guarded by a check
  that the array is not empty (JavaScript returns \<open>-Infinity\<close> there).
\<close>

definition mathMax :: "nat list \<Rightarrow> nat" where
  "mathMax xs = fold max xs 0"

text \<open>\<open>row[j] ?? ""\<close>: a read beyond the row's length is \<open>undefined\<close>, replaced by the empty string.\<close>

definition cellAt :: "jsstring list \<Rightarrow> nat \<Rightarrow> jsstring" where
  "cellAt row j = (if j < length row then row ! j else [])"

section \<open>Parsing helpers\<close>

type_synonym row = "jsstring list"
type_synonym table = "row list"

text \<open>
  \<open>splitLine(line, delimiter)\<close>. The delimiter is \<open>null\<close> (\<open>None\<close>) or a string; it is
  truthy when it is a non-empty string.
\<close>

definition truthy :: "jsstring option \<Rightarrow> bool" where
  "truthy d = (case d of None \<Rightarrow> False | Some s \<Rightarrow> s \<noteq> [])"

definition splitLine :: "jsstring \<Rightarrow> jsstring option \<Rightarrow> row" where
  "splitLine src delimiter =
     (if truthy delimiter then jsSplit src (the delimiter)
      else if TAB \<in> set src then jsSplit src [TAB]
      else if SEMI \<in> set src then jsSplit src [SEMI]
      else if PIPE \<in> set src then jsSplit src [PIPE]
      else splitSpaceRuns [] src)"

definition normalizeCell :: "jsstring \<Rightarrow> bool \<Rightarrow> jsstring" where
  "normalizeCell s collapseSpaces =
     (if \<not> collapseSpaces then s else collapseWhiteSpace (trim s))"

definition rowHasAnyValue :: "row \<Rightarrow> bool" where
  "rowHasAnyValue row = list_ex (\<lambda>c. trim c \<noteq> []) row"

definition parseRowsSimple :: "jsstring list \<Rightarrow> jsstring option \<Rightarrow> bool \<Rightarrow> table" where
  "parseRowsSimple lines delimiter collapseSpaces =
     map (\<lambda>line. map (\<lambda>c. normalizeCell c collapseSpaces) (splitLine line delimiter)) lines"

text \<open>
  \<open>removeEmptyColumns(table)\<close>. \<open>colHasValue\<close> is an array of \<open>maxCols\<close> flags, set by
  the two nested loops; each row then keeps its own cells whose flag is set. An index
  outside the flag array reads \<open>undefined\<close>, which is falsy.
\<close>

definition markRow :: "nat \<Rightarrow> row \<Rightarrow> bool list \<Rightarrow> bool list" where
  "markRow maxCols row colHasValue =
     fold (\<lambda>j flags. if trim (cellAt row j) \<noteq> [] then flags[j := True] else flags)
       [0..<maxCols] colHasValue"

definition keepFlagged :: "bool list \<Rightarrow> row \<Rightarrow> row" where
  "keepFlagged colHasValue row =
     map fst (filter (\<lambda>(c, j). j < length colHasValue \<and> colHasValue ! j)
                (zip row [0..<length row]))"

definition removeEmptyColumns :: "table \<Rightarrow> table" where
  "removeEmptyColumns t =
     (if length t = 0 then t
      else let maxCols = mathMax (map length t);
               colHasValue = fold (markRow maxCols) t (replicate maxCols False)
           in map (keepFlagged colHasValue) t)"

section \<open>Scoring candidate tables\<close>

text \<open>
  A score is a JavaScript number: an integer here, or \<open>Infinity\<close>. \<open>scoreLess\<close> is the
  comparison \<open><\<close> on these numbers.
\<close>

datatype score = Finite int | Infinity

fun scoreLess :: "score \<Rightarrow> score \<Rightarrow> bool" where
  "scoreLess (Finite a) (Finite b) = (a < b)"
| "scoreLess (Finite a) Infinity = True"
| "scoreLess Infinity s = False"

text \<open>
  The \<open>Map\<close> of frequencies keeps its keys in insertion order: an association list in
  which \<open>set\<close> on a present key updates in place and on a new key appends.
\<close>

definition mapGetOr0 :: "(nat \<times> nat) list \<Rightarrow> nat \<Rightarrow> nat" where
  "mapGetOr0 counts n = (case map_of counts n of None \<Rightarrow> 0 | Some c \<Rightarrow> c)"

definition countLengths :: "nat list \<Rightarrow> (nat \<times> nat) list" where
  "countLengths rowLengths =
     fold (\<lambda>n counts. AList.update n (mapGetOr0 counts n + 1) counts) rowLengths []"

text \<open>
  The loop over \<open>counts.entries()\<close>; the state is \<open>(bestCount, modeCols)\<close> and
  \<open>modeStep\<close> is one iteration.
\<close>

definition modeStep :: "nat \<times> nat \<Rightarrow> nat \<times> nat \<Rightarrow> nat \<times> nat" where
  "modeStep = (\<lambda>(cols, freq) (bestCount, modeCols).
      if freq > bestCount then (freq, cols) else (bestCount, modeCols))"

definition pickMode :: "(nat \<times> nat) list \<Rightarrow> nat \<times> nat" where
  "pickMode counts = fold modeStep counts (0, 0)"

definition scoreTable :: "table \<Rightarrow> score" where
  "scoreTable t =
     (let rowLengths = filter (\<lambda>n. n > 0) (map length t) in
      if length rowLengths = 0 then Infinity
      else let maxCols = mathMax rowLengths in
      if maxCols \<le> 1 then Infinity
      else let counts = countLengths rowLengths;
               (bestCount, modeCols) = pickMode counts;
               inconsistent = int (length rowLengths) - int bestCount;
               raggedPenalty = fold (\<lambda>n sum. sum + \<bar>int n - int modeCols\<bar>) rowLengths 0
           in Finite (inconsistent * 10 + raggedPenalty))"

section \<open>Choosing the best candidate\<close>

record candidate =
  name :: jsstring
  delim :: "jsstring option"

definition candidates :: "candidate list" where
  "candidates =
     [\<lparr>name = js ''tabs'', delim = Some [TAB]\<rparr>,
      \<lparr>name = js ''pipe'', delim = Some [PIPE]\<rparr>,
      \<lparr>name = js ''semicolon'', delim = Some [SEMI]\<rparr>,
      \<lparr>name = js ''spaces'', delim = None\<rparr>]"

text \<open>The loop state is \<open>(best, bestDetected, bestScore)\<close>; \<open>chooseStep\<close> is one iteration.\<close>

definition chooseStep ::
  "jsstring list \<Rightarrow> bool \<Rightarrow> candidate \<Rightarrow> table \<times> jsstring \<times> score \<Rightarrow> table \<times> jsstring \<times> score" where
  "chooseStep lines collapseSpaces c st =
     (case st of (best, bestDetected, bestScore) \<Rightarrow>
        let parsed = parseRowsSimple lines (delim c) collapseSpaces;
            s = scoreTable parsed
        in if scoreLess s bestScore then (parsed, name c, s) else (best, bestDetected, bestScore))"

definition chooseLoop ::
  "jsstring list \<Rightarrow> bool \<Rightarrow> candidate list \<Rightarrow> table \<times> jsstring \<times> score \<Rightarrow> table \<times> jsstring \<times> score" where
  "chooseLoop lines collapseSpaces cs st = fold (chooseStep lines collapseSpaces) cs st"

text \<open>The result \<open>{ table, detected }\<close> is the pair \<open>(table, detected)\<close>.\<close>

definition chooseBestTableSimple :: "jsstring list \<Rightarrow> bool \<Rightarrow> table \<times> jsstring" where
  "chooseBestTableSimple lines collapseSpaces =
     (case chooseLoop lines collapseSpaces candidates ([], js ''auto'', Infinity) of
        (best, bestDetected, bestScore) \<Rightarrow> (best, bestDetected))"

section \<open>Markdown\<close>

text \<open>\<open>s.replace(/\r?\n/g, " ")\<close> and \<open>s.replace(/\|/g, "\\|")\<close>\<close>

fun replaceNewlines :: "jsstring \<Rightarrow> jsstring" where
  "replaceNewlines [] = []"
| "replaceNewlines [a] = (if a = NL then [SP] else [a])"
| "replaceNewlines (a # b # cs) =
     (if a = CR \<and> b = NL then SP # replaceNewlines cs
      else if a = NL then SP # replaceNewlines (b # cs)
      else a # replaceNewlines (b # cs))"

definition escapePipes :: "jsstring \<Rightarrow> jsstring" where
  "escapePipes s = concat (map (\<lambda>c. if c = PIPE then [BACKSLASH, PIPE] else [c]) s)"

definition escapeMarkdownCell :: "jsstring \<Rightarrow> jsstring" where
  "escapeMarkdownCell s = escapePipes (replaceNewlines s)"

definition mdLine :: "row \<Rightarrow> jsstring" where
  "mdLine cells = js ''| '' @ joinWith (js '' | '') cells @ js '' |''"

definition toMarkdownTable :: "table \<Rightarrow> jsstring" where
  "toMarkdownTable data =
     (if length data = 0 then []
      else let maxCols = mathMax (map length data);
               padded = map (\<lambda>r. map escapeMarkdownCell (map (cellAt r) [0..<maxCols])) data;
               header = hd padded;
               body = tl padded;
               headerLine = mdLine header;
               separatorLine = mdLine (map (\<lambda>_. js ''---'') header);
               bodyLines = map mdLine body
           in joinWith [NL] ([headerLine, separatorLine] @ bodyLines))"

section \<open>The application\<close>

record options =
  removeEmptyRowsOpt :: bool
  removeEmptyColsOpt :: bool
  collapseSpacesOpt :: bool

definition applyCleaning :: "options \<Rightarrow> table \<Rightarrow> table" where
  "applyCleaning opts t =
     (let out1 = map (\<lambda>row. map (\<lambda>c. normalizeCell c (collapseSpacesOpt opts)) row) t;
          out2 = (if removeEmptyRowsOpt opts then filter rowHasAnyValue out1 else out1);
          out3 = (if removeEmptyColsOpt opts then removeEmptyColumns out2 else out2)
      in out3)"

text \<open>
  The memoised computation of \<open>{ table, detected }\<close> from the component's state.
  \<open>Papa.parse\<close> belongs to an external library and is a parameter: \<open>papaParse\<close> gives the
  rows it returns, already mapped to strings.
\<close>

definition looksLikeCSV :: "jsstring list \<Rightarrow> bool" where
  "looksLikeCSV lines =
     (length lines > 0 \<and> list_ex (\<lambda>r. of_char CHR '','' \<in> set r) lines
      \<and> \<not> list_ex (\<lambda>r. PIPE \<in> set r \<or> SEMI \<in> set r) lines)"

definition tableDetected ::
  "(jsstring \<Rightarrow> table) \<Rightarrow> options \<Rightarrow> table option \<Rightarrow> jsstring \<Rightarrow> jsstring \<Rightarrow> table \<times> jsstring" where
  "tableDetected papaParse opts importedTable normalizedText customDelimiter =
     (if importedTable \<noteq> None \<and> length (the importedTable) > 0
      then (applyCleaning opts (the importedTable), js ''xlsx'')
      else let lines = filter (\<lambda>l. length l > 0) (jsSplit normalizedText [NL]) in
      if customDelimiter \<noteq> []
      then (applyCleaning opts (parseRowsSimple lines (Some customDelimiter) (collapseSpacesOpt opts)),
            js ''custom ('' @ customDelimiter @ js '')'')
      else if looksLikeCSV lines
      then (applyCleaning opts (papaParse normalizedText), js ''csv'')
      else let result = chooseBestTableSimple lines (collapseSpacesOpt opts)
           in (applyCleaning opts (fst result), snd result))"

definition hasTable :: "table \<Rightarrow> bool" where
  "hasTable t = (length t > 0 \<and> list_ex (\<lambda>r. length r > 1) t)"

section \<open>Notions of the specification\<close>

text \<open>
  The single-delimiter-line rule, in the specification's words: a line is split on the
  first delimiter type found in it, tried in the order tab, semicolon, pipe, run of two
  or more spaces.
\<close>

definition singleDelimiterLineRule :: "jsstring \<Rightarrow> row" where
  "singleDelimiterLineRule src =
     (if TAB \<in> set src then jsSplit src [TAB]
      else if SEMI \<in> set src then jsSplit src [SEMI]
      else if PIPE \<in> set src then jsSplit src [PIPE]
      else splitSpaceRuns [] src)"

text \<open>A line has a run of two or more spaces; a line has none of the four delimiter signals.\<close>

fun hasSpaceRun :: "jsstring \<Rightarrow> bool" where
  "hasSpaceRun [] = False"
| "hasSpaceRun [x] = False"
| "hasSpaceRun (x # y # ys) = ((x = SP \<and> y = SP) \<or> hasSpaceRun (y # ys))"

definition noDelimiterSignal :: "jsstring \<Rightarrow> bool" where
  "noDelimiterSignal line =
     (TAB \<notin> set line \<and> SEMI \<notin> set line \<and> PIPE \<notin> set line \<and> \<not> hasSpaceRun line)"

text \<open>The score of a candidate: the score of the table that its pass parses.\<close>

definition candidateScore :: "jsstring list \<Rightarrow> bool \<Rightarrow> candidate \<Rightarrow> score" where
  "candidateScore lines collapseSpaces c =
     scoreTable (parseRowsSimple lines (delim c) collapseSpaces)"

text \<open>
  Candidate \<open>i\<close> is the first candidate with the lowest score, and that score is finite:
  its score is strictly lower than the score of every earlier candidate and no later
  candidate has a strictly lower score.
\<close>

definition firstLowestFinite :: "jsstring list \<Rightarrow> bool \<Rightarrow> nat \<Rightarrow> bool" where
  "firstLowestFinite lines collapseSpaces i =
     (i < length candidates \<and>
      candidateScore lines collapseSpaces (candidates ! i) \<noteq> Infinity \<and>
      (\<forall>j<i. scoreLess (candidateScore lines collapseSpaces (candidates ! i))
                (candidateScore lines collapseSpaces (candidates ! j))) \<and>
      (\<forall>j<length candidates. i < j \<longrightarrow>
         \<not> scoreLess (candidateScore lines collapseSpaces (candidates ! j))
             (candidateScore lines collapseSpaces (candidates ! i))))"

text \<open>
  The mode of a list of cell counts, in the specification's words: a most frequent value,
  and among the most frequent values the one that occurs first, so that every value met
  before its first occurrence is strictly less frequent.
\<close>

definition isMode :: "nat list \<Rightarrow> nat \<Rightarrow> bool" where
  "isMode ls m =
     (m \<in> set ls \<and> (\<forall>n\<in>set ls. count_list ls n \<le> count_list ls m) \<and>
      (\<forall>n\<in>set (takeWhile (\<lambda>x. x \<noteq> m) ls). count_list ls n < count_list ls m))"

text \<open>Column \<open>j\<close> of a table has a value: some row has a cell there that is not empty after trim.\<close>

definition colHasValueIn :: "table \<Rightarrow> nat \<Rightarrow> bool" where
  "colHasValueIn t j = list_ex (\<lambda>row. j < length row \<and> trim (row ! j) \<noteq> []) t"

text \<open>A string with no white space at either end.\<close>

definition edgesClean :: "jsstring \<Rightarrow> bool" where
  "edgesClean s = (s = [] \<or> (\<not> isWhiteSpace (hd s) \<and> \<not> isWhiteSpace (last s)))"

section \<open>Basic facts\<close>

lemmas char_defs = TAB_def NL_def CR_def SP_def SEMI_def PIPE_def BACKSLASH_def

text \<open>The definitions that evaluate auto-detection on concrete lines.\<close>

lemmas eval_choose =
  chooseBestTableSimple_def chooseLoop_def chooseStep_def candidates_def candidateScore_def
  parseRowsSimple_def splitLine_def truthy_def jsSplit_def scoreTable_def mathMax_def
  countLengths_def mapGetOr0_def pickMode_def modeStep_def normalizeCell_def js_def char_defs
  Let_def

lemma chooseBestTableSimple_loop:
  "chooseBestTableSimple lines b =
     (fst (chooseLoop lines b candidates ([], js ''auto'', Infinity)),
      fst (snd (chooseLoop lines b candidates ([], js ''auto'', Infinity))))"
  by (simp add: chooseBestTableSimple_def split: prod.splits)

section \<open>Splitting within a candidate pass\<close>

text \<open>
  C1, as stated, at the candidate \<open>tabs\<close> and the line \<open>a;b\<close>: the pass splits on the tab
  only and leaves the line whole, where the single-delimiter-line rule would split it on
  the semicolon.
\<close>

theorem C1_counterexample:
  "splitLine (js ''a;b'') (delim (candidates ! 0)) \<noteq> singleDelimiterLineRule (js ''a;b'') \<and>
   splitLine (js ''a;b'') (delim (candidates ! 0)) = [js ''a;b''] \<and>
   singleDelimiterLineRule (js ''a;b'') = [js ''a'', js ''b'']"
  by (simp add: candidates_def splitLine_def truthy_def jsSplit_def js_def
      singleDelimiterLineRule_def char_defs)

text \<open>
  C1, amended: in the pass of a candidate that has a delimiter (tabs, pipe, semicolon)
  every line is split on the literal occurrences of that delimiter; only in the pass of
  the candidate without one (spaces) is every line split by the single-delimiter-line
  rule.
\<close>

theorem C1_split_per_candidate:
  "c \<in> set candidates \<Longrightarrow>
   parseRowsSimple lines (delim c) collapseSpaces =
     map (\<lambda>line. map (\<lambda>x. normalizeCell x collapseSpaces)
           (case delim c of Some d \<Rightarrow> jsSplit line d | None \<Rightarrow> singleDelimiterLineRule line))
       lines \<and>
   map name candidates = [js ''tabs'', js ''pipe'', js ''semicolon'', js ''spaces''] \<and>
   map delim candidates = [Some [TAB], Some [PIPE], Some [SEMI], None]"
  by (auto simp: candidates_def parseRowsSimple_def splitLine_def truthy_def
      singleDelimiterLineRule_def)

theorem C1_split_per_candidate_witness:
  "candidates ! 1 \<in> set candidates \<and>
   parseRowsSimple [[0x61, TAB, 0x62, PIPE, 0x63]] (delim (candidates ! 1)) False =
     [[[0x61, TAB, 0x62], [0x63]]]"
proof -
  have h: "candidates ! 1 \<in> set candidates" by (simp add: candidates_def)
  show ?thesis
    using h C1_split_per_candidate [OF h, of "[[0x61, TAB, 0x62, PIPE, 0x63]]" False]
    by (simp add: candidates_def jsSplit_def normalizeCell_def char_defs)
qed

section \<open>Scores do not depend on the cleaning options\<close>

lemma scoreTable_lengths:
  "map length t = map length t' \<Longrightarrow> scoreTable t = scoreTable t'"
  by (simp add: scoreTable_def)

lemma parseRowsSimple_lengths:
  "map length (parseRowsSimple lines d b) = map (\<lambda>line. length (splitLine line d)) lines"
  by (simp add: parseRowsSimple_def comp_def)

lemma score_parse_collapse:
  "scoreTable (parseRowsSimple lines d True) = scoreTable (parseRowsSimple lines d False)"
  by (rule scoreTable_lengths) (simp add: parseRowsSimple_lengths)

lemma chooseLoop_label_collapse:
  "snd st = snd st' \<Longrightarrow>
   snd (chooseLoop lines True cs st) = snd (chooseLoop lines False cs st')"
proof (induction cs arbitrary: st st')
  case Nil
  then show ?case by (simp add: chooseLoop_def)
next
  case (Cons c cs)
  have "snd (chooseStep lines True c st) = snd (chooseStep lines False c st')"
    using Cons.prems
    by (cases st; cases st') (simp add: chooseStep_def Let_def score_parse_collapse)
  from Cons.IH [OF this] show ?case by (simp add: chooseLoop_def)
qed

text \<open>
  C10: for every lines input and every candidate, the score of the candidate's parse is
  the same with \<open>collapseSpaces\<close> true and false, and so is the label that
  auto-detection returns.
\<close>

theorem C10_score_and_label_ignore_collapseSpaces:
  "scoreTable (parseRowsSimple lines (delim c) True) =
     scoreTable (parseRowsSimple lines (delim c) False) \<and>
   snd (chooseBestTableSimple lines True) = snd (chooseBestTableSimple lines False)"
proof -
  have "snd (chooseLoop lines True candidates ([], js ''auto'', Infinity)) =
        snd (chooseLoop lines False candidates ([], js ''auto'', Infinity))"
    by (rule chooseLoop_label_collapse) simp
  then have "snd (chooseBestTableSimple lines True) = snd (chooseBestTableSimple lines False)"
    by (simp add: chooseBestTableSimple_loop)
  then show ?thesis by (simp add: score_parse_collapse)
qed

section \<open>Removing empty columns\<close>

lemma trim_Nil [simp]: "trim [] = []"
  by (simp add: trim_def)

lemma cellAt_value: "trim (cellAt row j) \<noteq> [] \<longleftrightarrow> j < length row \<and> trim (row ! j) \<noteq> []"
  by (simp add: cellAt_def)

lemma fold_max_ge: "a \<le> fold max xs (a::nat)"
  by (induction xs arbitrary: a) (auto intro: order_trans [OF max.cobounded2])

lemma fold_max_mem: "x \<in> set xs \<Longrightarrow> x \<le> fold max xs (a::nat)"
proof (induction xs arbitrary: a)
  case Nil
  then show ?case by simp
next
  case (Cons y ys)
  show ?case
  proof (cases "x = y")
    case True
    have "y \<le> max y a" by simp
    also have "\<dots> \<le> fold max ys (max y a)" by (rule fold_max_ge)
    finally show ?thesis using True by simp
  next
    case False
    with Cons show ?thesis by simp
  qed
qed

lemma mathMax_ge: "x \<in> set xs \<Longrightarrow> x \<le> mathMax xs"
  by (simp add: mathMax_def fold_max_mem)

lemma fold_mark_length:
  "length (fold (\<lambda>j fl. if P j then fl[j := True] else fl) ixs flags) = length flags"
  by (induction ixs arbitrary: flags) auto

lemma fold_mark_nth:
  "i < length flags \<Longrightarrow>
   fold (\<lambda>j fl. if P j then fl[j := True] else fl) ixs flags ! i
     = (flags ! i \<or> (i \<in> set ixs \<and> P i))"
proof (induction ixs arbitrary: flags)
  case Nil
  then show ?case by simp
next
  case (Cons a ixs)
  let ?fl = "if P a then flags[a := True] else flags"
  have "length ?fl = length flags" by simp
  with Cons.prems have "i < length ?fl" by simp
  from Cons.IH [OF this] Cons.prems show ?case
    by (cases "a < length flags") (auto simp: nth_list_update)
qed

lemma markRow_length: "length (markRow n row flags) = length flags"
  by (simp add: markRow_def fold_mark_length)

lemma markRow_nth:
  "i < length flags \<Longrightarrow>
   markRow n row flags ! i = (flags ! i \<or> (i < n \<and> i < length row \<and> trim (row ! i) \<noteq> []))"
  by (simp add: markRow_def fold_mark_nth cellAt_value)

lemma fold_markRow_length: "length (fold (markRow n) t flags) = length flags"
  by (induction t arbitrary: flags) (auto simp: markRow_length)

lemma fold_markRow_nth:
  "i < length flags \<Longrightarrow>
   fold (markRow n) t flags ! i = (flags ! i \<or> (i < n \<and> colHasValueIn t i))"
  by (induction t arbitrary: flags)
     (auto simp: markRow_nth markRow_length colHasValueIn_def)

lemma keepFlagged_nths:
  "keepFlagged flags row = nths row {j. j < length flags \<and> flags ! j}"
  by (simp add: keepFlagged_def nths_def case_prod_unfold)

lemma nths_cong_below:
  "(\<And>j. j < length xs \<Longrightarrow> j \<in> A \<longleftrightarrow> j \<in> B) \<Longrightarrow> nths xs A = nths xs B"
  unfolding nths_def
  by (rule arg_cong [where f = "map fst"], rule filter_cong) (auto simp: set_zip)

lemma removeEmptyColumns_nths:
  "removeEmptyColumns t = map (\<lambda>row. nths row {j. colHasValueIn t j}) t"
proof (cases "t = []")
  case True
  then show ?thesis by (simp add: removeEmptyColumns_def)
next
  case False
  define n where "n = mathMax (map length t)"
  define flags where "flags = fold (markRow n) t (replicate n False)"
  have len: "length flags = n"
    by (simp add: flags_def fold_markRow_length)
  have nth: "flags ! j = colHasValueIn t j" if "j < n" for j
    using that by (simp add: flags_def fold_markRow_nth)
  have "keepFlagged flags row = nths row {j. colHasValueIn t j}" if "row \<in> set t" for row
  proof -
    have "length row \<le> n"
      unfolding n_def using that by (intro mathMax_ge) simp
    then show ?thesis
      unfolding keepFlagged_nths by (intro nths_cong_below) (auto simp: len nth)
  qed
  then have "map (keepFlagged flags) t = map (\<lambda>row. nths row {j. colHasValueIn t j}) t"
    by simp
  with False show ?thesis
    by (simp add: removeEmptyColumns_def Let_def n_def flags_def)
qed

text \<open>
  Cell \<open>j\<close> of a row cut down to the columns in \<open>A\<close> comes from one column \<open>k\<close> of
  \<open>A\<close>, the same for all rows.
\<close>

lemma nths_column:
  "j < length (nths (row :: 'a list) A) \<Longrightarrow>
   \<exists>k\<in>A. k < length row \<and>
     (\<forall>r :: 'a list. k < length r \<longrightarrow> j < length (nths r A) \<and> nths r A ! j = r ! k)"
proof (induction row arbitrary: A j)
  case Nil
  then show ?case by simp
next
  case (Cons c cs)
  let ?B = "{i. Suc i \<in> A}"
  have tail: "\<exists>k\<in>A. k < length (c # cs) \<and>
       (\<forall>r :: 'a list. k < length r \<longrightarrow> j < length (nths r A) \<and> nths r A ! j = r ! k)"
    if j': "j' < length (nths cs ?B)" and jj: "j = (if 0 \<in> A then Suc j' else j')" for j'
  proof -
    from Cons.IH [OF j'] obtain k where k: "Suc k \<in> A" "k < length cs"
      and all: "\<forall>r :: 'a list. k < length r \<longrightarrow> j' < length (nths r ?B) \<and> nths r ?B ! j' = r ! k"
      by auto
    have "j < length (nths r A) \<and> nths r A ! j = r ! Suc k" if "Suc k < length r"
      for r :: "'a list"
    proof (cases r)
      case Nil
      with that show ?thesis by simp
    next
      case (Cons d ds)
      with that all [rule_format, of ds] jj show ?thesis by (simp add: nths_Cons)
    qed
    with k show ?thesis by (intro bexI [of _ "Suc k"]) auto
  qed
  show ?case
  proof (cases "0 \<in> A")
    case True
    show ?thesis
    proof (cases j)
      case 0
      have "0 < length (nths r A) \<and> nths r A ! 0 = r ! 0" if "0 < length r"
        for r :: "'a list"
        using that True by (cases r) (simp_all add: nths_Cons)
      with True 0 show ?thesis by (intro bexI [of _ 0]) auto
    next
      case (Suc j')
      with Cons.prems True have "j' < length (nths cs ?B)" by (simp add: nths_Cons)
      then show ?thesis using Suc True by (intro tail [of j']) simp_all
    qed
  next
    case False
    with Cons.prems have "j < length (nths cs ?B)" by (simp add: nths_Cons)
    then show ?thesis using False by (intro tail [of j]) simp_all
  qed
qed

lemma colHasValueIn_iff:
  "colHasValueIn t j \<longleftrightarrow> (\<exists>row\<in>set t. j < length row \<and> trim (row ! j) \<noteq> [])"
  by (simp add: colHasValueIn_def list_ex_iff)

lemma rowHasAnyValue_iff: "rowHasAnyValue row \<longleftrightarrow> (\<exists>c\<in>set row. trim c \<noteq> [])"
  by (simp add: rowHasAnyValue_def list_ex_iff)

lemma removeEmptyColumns_idem:
  "removeEmptyColumns (removeEmptyColumns t) = removeEmptyColumns t"
proof -
  define K where "K = {j. colHasValueIn t j}"
  define t' where "t' = map (\<lambda>row. nths row K) t"
  have t': "removeEmptyColumns t = t'"
    by (simp add: removeEmptyColumns_nths t'_def K_def)
  have "nths row' {j. colHasValueIn t' j} = row'" if "row' \<in> set t'" for row'
  proof (rule nths_all, intro allI impI)
    fix j assume j: "j < length row'"
    from that obtain row where row: "row \<in> set t" "row' = nths row K"
      by (auto simp: t'_def)
    from nths_column [of j row K] j row obtain k where k: "k \<in> K"
      and all: "\<forall>r :: jsstring list. k < length r \<longrightarrow> j < length (nths r K) \<and> nths r K ! j = r ! k"
      by auto
    from k obtain r0 where r0: "r0 \<in> set t" "k < length r0" "trim (r0 ! k) \<noteq> []"
      by (auto simp: K_def colHasValueIn_iff)
    from all r0 have "j < length (nths r0 K)" "trim (nths r0 K ! j) \<noteq> []" by auto
    moreover have "nths r0 K \<in> set t'" using r0 by (simp add: t'_def)
    ultimately have "colHasValueIn t' j" unfolding colHasValueIn_iff by blast
    then show "j \<in> {j. colHasValueIn t' j}" by simp
  qed
  then have "map (\<lambda>row. nths row {j. colHasValueIn t' j}) t' = t'"
    by (simp add: map_idI)
  then show ?thesis
    unfolding t' by (simp add: removeEmptyColumns_nths)
qed

lemma removeEmptyColumns_keeps_values:
  assumes "\<forall>row\<in>set t. rowHasAnyValue row"
  shows "\<forall>row\<in>set (removeEmptyColumns t). rowHasAnyValue row"
proof -
  have "rowHasAnyValue (nths row {j. colHasValueIn t j})" if row: "row \<in> set t" for row
  proof -
    from assms row obtain c where "c \<in> set row" "trim c \<noteq> []"
      by (auto simp: rowHasAnyValue_iff)
    then obtain i where i: "i < length row" "row ! i = c"
      by (auto simp: in_set_conv_nth)
    with row \<open>trim c \<noteq> []\<close> have "colHasValueIn t i"
      by (auto simp: colHasValueIn_iff)
    with i have "c \<in> set (nths row {j. colHasValueIn t j})"
      by (auto simp: set_nths)
    with \<open>trim c \<noteq> []\<close> show ?thesis by (auto simp: rowHasAnyValue_iff)
  qed
  then show ?thesis by (simp add: removeEmptyColumns_nths)
qed

lemma cells_removeEmptyColumns:
  "row' \<in> set (removeEmptyColumns t) \<Longrightarrow> c \<in> set row' \<Longrightarrow> \<exists>row\<in>set t. c \<in> set row"
  by (auto simp: removeEmptyColumns_nths dest: in_set_nthsD)

subsection \<open>normalizeCell is idempotent\<close>

lemma isWhiteSpace_SP [simp]: "isWhiteSpace SP"
  by (simp add: isWhiteSpace_def SP_def)

lemma dropWhile_hd: "dropWhile P xs \<noteq> [] \<Longrightarrow> \<not> P (hd (dropWhile P xs))"
  by (metis hd_dropWhile)

lemma edgesClean_trim: "edgesClean (trim s)"
proof -
  let ?a = "dropWhile isWhiteSpace s"
  let ?b = "dropWhile isWhiteSpace (rev ?a)"
  show ?thesis
  proof (cases "?b = []")
    case True
    then show ?thesis by (simp add: edgesClean_def trim_def)
  next
    case False
    then have b: "\<not> isWhiteSpace (hd ?b)" by (rule dropWhile_hd)
    have "?a \<noteq> []"
    proof
      assume e: "?a = []"
      have "?b = []" unfolding e by simp
      with False show False ..
    qed
    then have a: "\<not> isWhiteSpace (hd ?a)" by (rule dropWhile_hd)
    obtain ws where ws: "rev ?a = ws @ ?b"
      by (metis takeWhile_dropWhile_id)
    then have "?a = rev ?b @ rev ws" by (metis rev_append rev_rev_ident)
    with False have "hd (rev ?b) = hd ?a" by (metis hd_append2 rev_is_Nil_conv)
    with a b False show ?thesis
      by (simp add: edgesClean_def trim_def last_rev)
  qed
qed

lemma trim_edgesClean: "edgesClean s \<Longrightarrow> trim s = s"
proof (cases "s = []")
  case True
  then show ?thesis by simp
next
  case False
  assume "edgesClean s"
  with False have h: "\<not> isWhiteSpace (hd s)" and l: "\<not> isWhiteSpace (last s)"
    by (auto simp: edgesClean_def)
  from False h have 1: "dropWhile isWhiteSpace s = s" by (cases s) auto
  from False l have "\<not> isWhiteSpace (hd (rev s))" by (simp add: hd_rev)
  with False have 2: "dropWhile isWhiteSpace (rev s) = rev s" by (cases "rev s") auto
  show ?thesis by (simp add: trim_def 1 2)
qed

lemma collapse_Nil_iff [simp]: "collapseWhiteSpace s = [] \<longleftrightarrow> s = []"
  by (cases s) auto

lemma collapse_hd: "s \<noteq> [] \<Longrightarrow> \<not> isWhiteSpace (hd s) \<Longrightarrow> hd (collapseWhiteSpace s) = hd s"
  by (cases s) auto

lemma collapse_last:
  "s \<noteq> [] \<Longrightarrow> \<not> isWhiteSpace (last s) \<Longrightarrow> last (collapseWhiteSpace s) = last s"
proof (induction s rule: collapseWhiteSpace.induct)
  case 1
  then show ?case by simp
next
  case (2 c cs)
  show ?case
  proof (cases "isWhiteSpace c")
    case True
    let ?d = "dropWhile isWhiteSpace cs"
    from 2 True have cs: "cs \<noteq> []" by auto
    have d: "?d \<noteq> []"
    proof
      assume "?d = []"
      then have "\<forall>x\<in>set cs. isWhiteSpace x" by (simp add: dropWhile_eq_Nil_conv)
      with cs have "isWhiteSpace (last cs)" by simp
      with 2 cs show False by simp
    qed
    have ld: "last ?d = last cs"
      using d by (metis last_appendR takeWhile_dropWhile_id)
    have cd: "collapseWhiteSpace ?d \<noteq> []"
      using d by (simp only: collapse_Nil_iff not_False_eq_True)
    from "2.prems" cs have "\<not> isWhiteSpace (last ?d)" by (simp add: ld)
    from "2.IH" (1) [OF True d this] have ih: "last (collapseWhiteSpace ?d) = last cs"
      by (simp only: ld)
    have "last (collapseWhiteSpace (c # cs)) = last (collapseWhiteSpace ?d)"
      using True cd by (simp del: dropWhile_eq_Nil_conv)
    also note ih
    also have "last cs = last (c # cs)" using cs by simp
    finally show ?thesis .
  next
    case False
    with 2 show ?thesis by (cases cs) auto
  qed
qed

lemma edgesClean_collapse: "edgesClean s \<Longrightarrow> edgesClean (collapseWhiteSpace s)"
  by (auto simp: edgesClean_def collapse_hd collapse_last)

lemma dropWhile_collapse:
  "d = [] \<or> \<not> isWhiteSpace (hd d) \<Longrightarrow>
   dropWhile isWhiteSpace (collapseWhiteSpace d) = collapseWhiteSpace d"
  by (cases d) auto

lemma dropWhile_collapse_drop:
  "dropWhile isWhiteSpace (collapseWhiteSpace (dropWhile isWhiteSpace cs))
     = collapseWhiteSpace (dropWhile isWhiteSpace cs)"
  by (rule dropWhile_collapse) (metis hd_dropWhile)

lemma collapse_idem: "collapseWhiteSpace (collapseWhiteSpace s) = collapseWhiteSpace s"
  by (induction s rule: collapseWhiteSpace.induct) (auto simp: dropWhile_collapse_drop)

lemma normalizeCell_idem: "normalizeCell (normalizeCell s b) b = normalizeCell s b"
  by (simp add: normalizeCell_def collapse_idem
      trim_edgesClean [OF edgesClean_collapse [OF edgesClean_trim]])

section \<open>The cleaner\<close>

lemma applyCleaning_unfold:
  "applyCleaning opts t =
     (let out1 = map (map (\<lambda>c. normalizeCell c (collapseSpacesOpt opts))) t;
          out2 = (if removeEmptyRowsOpt opts then filter rowHasAnyValue out1 else out1)
      in if removeEmptyColsOpt opts then removeEmptyColumns out2 else out2)"
  by (simp add: applyCleaning_def Let_def)

lemma applyCleaning_idem:
  "applyCleaning opts (applyCleaning opts t) = applyCleaning opts t"
proof -
  define b where "b = collapseSpacesOpt opts"
  define out1 where "out1 = map (map (\<lambda>c. normalizeCell c b)) t"
  define out2 where "out2 = (if removeEmptyRowsOpt opts then filter rowHasAnyValue out1 else out1)"
  define out3 where "out3 = (if removeEmptyColsOpt opts then removeEmptyColumns out2 else out2)"
  have res: "applyCleaning opts t = out3"
    by (simp add: applyCleaning_unfold Let_def out3_def out2_def out1_def b_def)
  have n1: "normalizeCell c b = c" if "row \<in> set out1" "c \<in> set row" for row c
    using that by (auto simp: out1_def normalizeCell_idem)
  have n2: "normalizeCell c b = c" if "row \<in> set out2" "c \<in> set row" for row c
    using that n1 by (auto simp: out2_def split: if_splits)
  have n3: "normalizeCell c b = c" if "row \<in> set out3" "c \<in> set row" for row c
  proof (cases "removeEmptyColsOpt opts")
    case True
    with that cells_removeEmptyColumns [of row out2 c] n2 show ?thesis
      by (auto simp: out3_def)
  next
    case False
    with that n2 show ?thesis by (auto simp: out3_def)
  qed
  have norm: "map (map (\<lambda>c. normalizeCell c b)) out3 = out3"
    by (intro map_idI) (use n3 in auto)
  have rows: "filter rowHasAnyValue out3 = out3" if r: "removeEmptyRowsOpt opts"
  proof -
    from r have "\<forall>row\<in>set out2. rowHasAnyValue row" by (simp add: out2_def)
    then have "\<forall>row\<in>set out3. rowHasAnyValue row"
      using removeEmptyColumns_keeps_values [of out2] by (simp add: out3_def)
    then show ?thesis by simp
  qed
  have cols: "removeEmptyColumns out3 = out3" if "removeEmptyColsOpt opts"
    using that by (simp add: out3_def removeEmptyColumns_idem)
  have "applyCleaning opts out3 = out3"
    unfolding applyCleaning_unfold Let_def b_def [symmetric] norm
    using rows cols by simp
  then show ?thesis by (simp add: res)
qed

text \<open>
  C8: the cleaner is idempotent. For every table and every options record with
  \<open>removeEmptyRows\<close> and \<open>removeEmptyColumns\<close> true, cleaning the cleaned table again
  gives the cleaned table: no row or column is removed and no cell changes.
\<close>

theorem C8_clean_idempotent:
  "removeEmptyRowsOpt opts \<Longrightarrow> removeEmptyColsOpt opts \<Longrightarrow>
   applyCleaning opts (applyCleaning opts t) = applyCleaning opts t"
  by (rule applyCleaning_idem)

text \<open>The definitions that evaluate the cleaner on a concrete table.\<close>

lemmas eval_clean =
  applyCleaning_def removeEmptyColumns_def markRow_def keepFlagged_def mathMax_def cellAt_def
  rowHasAnyValue_def normalizeCell_def trim_def isWhiteSpace_def js_def SP_def Let_def

text \<open>
  An instance of C8 where the first pass does remove a row and a column and changes a cell.
\<close>

theorem C8_clean_idempotent_witness:
  "removeEmptyRowsOpt \<lparr>removeEmptyRowsOpt = True, removeEmptyColsOpt = True, collapseSpacesOpt = True\<rparr> \<and>
   removeEmptyColsOpt \<lparr>removeEmptyRowsOpt = True, removeEmptyColsOpt = True, collapseSpacesOpt = True\<rparr> \<and>
   applyCleaning \<lparr>removeEmptyRowsOpt = True, removeEmptyColsOpt = True, collapseSpacesOpt = True\<rparr>
     [[js ''a'', js '' '', js ''''], [js '''', js '''', js ''  ''], [js '' b  c'', js '''', js ''d'']]
     = [[js ''a'', js ''''], [js ''b c'', js ''d'']] \<and>
   applyCleaning \<lparr>removeEmptyRowsOpt = True, removeEmptyColsOpt = True, collapseSpacesOpt = True\<rparr>
     [[js ''a'', js ''''], [js ''b c'', js ''d'']]
     = [[js ''a'', js ''''], [js ''b c'', js ''d'']]"
proof -
  let ?o = "\<lparr>removeEmptyRowsOpt = True, removeEmptyColsOpt = True, collapseSpacesOpt = True\<rparr>"
  let ?t = "[[js ''a'', js '' '', js ''''], [js '''', js '''', js ''  ''], [js '' b  c'', js '''', js ''d'']]"
  have e: "applyCleaning ?o ?t = [[js ''a'', js ''''], [js ''b c'', js ''d'']]"
    by (simp add: eval_clean)
  have "applyCleaning ?o (applyCleaning ?o ?t) = applyCleaning ?o ?t"
    by (rule C8_clean_idempotent) simp_all
  then show ?thesis by (simp add: e)
qed

lemma removeEmptyColumns_uniform_iff:
  fixes kept :: table
  defines "K \<equiv> {j. colHasValueIn kept j}"
  shows "(\<forall>r\<in>set (removeEmptyColumns kept). length r = length (hd (removeEmptyColumns kept)))
     \<longleftrightarrow> (\<forall>row\<in>set kept. \<forall>j\<in>K. j < length row)"
proof
  assume reach: "\<forall>row\<in>set kept. \<forall>j\<in>K. j < length row"
  have "length (nths row K) = card K" if "row \<in> set kept" for row
  proof -
    from reach that have "{i. i < length row \<and> i \<in> K} = K" by auto
    then show ?thesis by (simp add: length_nths)
  qed
  then have all: "\<forall>r\<in>set (removeEmptyColumns kept). length r = card K"
    by (auto simp: removeEmptyColumns_nths K_def)
  show "\<forall>r\<in>set (removeEmptyColumns kept). length r = length (hd (removeEmptyColumns kept))"
  proof (cases "removeEmptyColumns kept")
    case Nil
    then show ?thesis by simp
  next
    case (Cons r rs)
    with all show ?thesis by simp
  qed
next
  assume uni: "\<forall>r\<in>set (removeEmptyColumns kept). length r = length (hd (removeEmptyColumns kept))"
  define L where "L = length (hd (removeEmptyColumns kept))"
  have len: "length (nths row K) = L" if "row \<in> set kept" for row
    using uni that by (auto simp: removeEmptyColumns_nths K_def L_def)
  show "\<forall>row\<in>set kept. \<forall>j\<in>K. j < length row"
  proof (intro ballI, rule ccontr)
    fix row j assume row: "row \<in> set kept" and j: "j \<in> K" and short: "\<not> j < length row"
    from j obtain r0 where r0: "r0 \<in> set kept" "j < length r0"
      by (auto simp: K_def colHasValueIn_iff)
    let ?A = "{i. i < length row \<and> i \<in> K}" and ?B = "{i. i < length r0 \<and> i \<in> K}"
    have "?A \<subseteq> ?B" using short r0 by auto
    moreover have "j \<in> ?B" "j \<notin> ?A" using j r0 short by auto
    ultimately have "?A \<subset> ?B" by blast
    moreover have "finite ?B" by simp
    ultimately have "card ?A < card ?B" by (rule psubset_card_mono [rotated])
    then have "length (nths row K) < length (nths r0 K)" by (simp add: length_nths)
    with len [OF row] len [OF r0(1)] show False by simp
  qed
qed

lemma applyCleaning_keep_columns:
  "applyCleaning (opts\<lparr>removeEmptyColsOpt := False\<rparr>) t =
     (let out1 = map (map (\<lambda>c. normalizeCell c (collapseSpacesOpt opts))) t
      in if removeEmptyRowsOpt opts then filter rowHasAnyValue out1 else out1)"
  by (simp add: applyCleaning_unfold Let_def)

lemma applyCleaning_columns:
  "removeEmptyColsOpt opts \<Longrightarrow>
   applyCleaning opts t = removeEmptyColumns (applyCleaning (opts\<lparr>removeEmptyColsOpt := False\<rparr>) t)"
  by (simp add: applyCleaning_unfold Let_def)

lemma applyCleaning_uniform:
  assumes uni: "\<forall>r\<in>set t. length r = n"
  shows "\<forall>r\<in>set (applyCleaning (opts\<lparr>removeEmptyColsOpt := False\<rparr>) t). length r = n"
  using uni by (auto simp: applyCleaning_keep_columns Let_def)

text \<open>
  C2, as stated, at the table \<open>[["a","b"],["c"]]\<close> with all options true: no column is
  empty, each row keeps its own cells, and the output rows have lengths 2 and 1.
\<close>

theorem C2_counterexample:
  "applyCleaning \<lparr>removeEmptyRowsOpt = True, removeEmptyColsOpt = True, collapseSpacesOpt = True\<rparr>
     [[js ''a'', js ''b''], [js ''c'']] = [[js ''a'', js ''b''], [js ''c'']] \<and>
   \<not> list_all
       (\<lambda>r. length r =
          length (hd (applyCleaning
            \<lparr>removeEmptyRowsOpt = True, removeEmptyColsOpt = True, collapseSpacesOpt = True\<rparr>
            [[js ''a'', js ''b''], [js ''c'']])))
       (applyCleaning
         \<lparr>removeEmptyRowsOpt = True, removeEmptyColsOpt = True, collapseSpacesOpt = True\<rparr>
         [[js ''a'', js ''b''], [js ''c'']])"
proof -
  have e: "applyCleaning
      \<lparr>removeEmptyRowsOpt = True, removeEmptyColsOpt = True, collapseSpacesOpt = True\<rparr>
      [[js ''a'', js ''b''], [js ''c'']] = [[js ''a'', js ''b''], [js ''c'']]"
    by (simp add: eval_clean)
  show ?thesis unfolding e by simp
qed

text \<open>
  C2, amended: with \<open>removeEmptyColumns\<close> true, every row of the cleaned table consists of
  that row's own cells in the columns that have a value somewhere in the table left by the
  first two passes; nothing is padded. So the cleaned table has every row of the length of
  its first row exactly when every row left by the first two passes reaches every column
  that has a value. In particular this holds when all input rows have the same length.
\<close>

theorem C2_row_lengths_after_column_removal:
  assumes cols: "removeEmptyColsOpt opts"
  shows "(let kept = applyCleaning (opts\<lparr>removeEmptyColsOpt := False\<rparr>) t;
              hasValue = (\<lambda>j. \<exists>row\<in>set kept. j < length row \<and> trim (row ! j) \<noteq> [])
          in applyCleaning opts t = map (\<lambda>row. nths row {j. hasValue j}) kept \<and>
             ((\<forall>r\<in>set (applyCleaning opts t). length r = length (hd (applyCleaning opts t)))
               \<longleftrightarrow> (\<forall>row\<in>set kept. \<forall>j. hasValue j \<longrightarrow> j < length row))) \<and>
         ((\<forall>r\<in>set t. length r = n) \<longrightarrow>
            (\<forall>r\<in>set (applyCleaning opts t). length r = length (hd (applyCleaning opts t))))"
proof -
  define kept where "kept = applyCleaning (opts\<lparr>removeEmptyColsOpt := False\<rparr>) t"
  have out: "applyCleaning opts t = removeEmptyColumns kept"
    using cols by (simp only: kept_def applyCleaning_columns)
  have hv: "colHasValueIn kept = (\<lambda>j. \<exists>row\<in>set kept. j < length row \<and> trim (row ! j) \<noteq> [])"
    by (simp add: fun_eq_iff colHasValueIn_iff)
  have 1: "applyCleaning opts t = map (\<lambda>row. nths row {j. colHasValueIn kept j}) kept"
    by (simp only: out removeEmptyColumns_nths)
  have 2: "(\<forall>r\<in>set (applyCleaning opts t). length r = length (hd (applyCleaning opts t)))
      \<longleftrightarrow> (\<forall>row\<in>set kept. \<forall>j. colHasValueIn kept j \<longrightarrow> j < length row)"
    unfolding out removeEmptyColumns_uniform_iff by auto
  have 3: "\<forall>r\<in>set (applyCleaning opts t). length r = length (hd (applyCleaning opts t))"
    if uni: "\<forall>r\<in>set t. length r = n"
  proof -
    from applyCleaning_uniform [OF uni, of opts] have k: "\<forall>r\<in>set kept. length r = n"
      by (simp only: kept_def)
    have "\<forall>row\<in>set kept. \<forall>j. colHasValueIn kept j \<longrightarrow> j < length row"
    proof (intro ballI allI impI)
      fix row j assume "row \<in> set kept" "colHasValueIn kept j"
      with k show "j < length row" by (auto simp: colHasValueIn_iff)
    qed
    with 2 show ?thesis by (simp only:)
  qed
  have e1: "applyCleaning opts t =
      map (\<lambda>row. nths row {j. \<exists>row\<in>set kept. j < length row \<and> trim (row ! j) \<noteq> []}) kept"
    using 1 by (simp only: colHasValueIn_iff)
  have e2: "(\<forall>r\<in>set (applyCleaning opts t). length r = length (hd (applyCleaning opts t)))
      \<longleftrightarrow> (\<forall>row\<in>set kept.
            \<forall>j. (\<exists>row\<in>set kept. j < length row \<and> trim (row ! j) \<noteq> []) \<longrightarrow> j < length row)"
    using 2 by (simp only: colHasValueIn_iff)
  from e1 e2 3 show ?thesis
    unfolding Let_def kept_def [symmetric] by (intro conjI impI) assumption+
qed

text \<open>
  An instance of the amended C2 on a ragged table: the only cell of the third column is
  blank, both rows reach the two columns that have a value, and the cleaned table has two
  rows of two cells.
\<close>

theorem C2_row_lengths_after_column_removal_witness:
  "removeEmptyColsOpt \<lparr>removeEmptyRowsOpt = True, removeEmptyColsOpt = True, collapseSpacesOpt = True\<rparr> \<and>
   applyCleaning \<lparr>removeEmptyRowsOpt = True, removeEmptyColsOpt = False, collapseSpacesOpt = True\<rparr>
     [[js ''a'', js ''b''], [js ''c'', js ''d'', js '' '']]
     = [[js ''a'', js ''b''], [js ''c'', js ''d'', js '''']] \<and>
   applyCleaning \<lparr>removeEmptyRowsOpt = True, removeEmptyColsOpt = True, collapseSpacesOpt = True\<rparr>
     [[js ''a'', js ''b''], [js ''c'', js ''d'', js '' '']]
     = [[js ''a'', js ''b''], [js ''c'', js ''d'']] \<and>
   list_all (\<lambda>r. length r = 2)
     (applyCleaning \<lparr>removeEmptyRowsOpt = True, removeEmptyColsOpt = True, collapseSpacesOpt = True\<rparr>
        [[js ''a'', js ''b''], [js ''c'', js ''d'', js '' '']])"
proof -
  let ?o = "\<lparr>removeEmptyRowsOpt = True, removeEmptyColsOpt = True, collapseSpacesOpt = True\<rparr>"
  let ?t = "[[js ''a'', js ''b''], [js ''c'', js ''d'', js '' '']]"
  have h: "removeEmptyColsOpt ?o" by simp
  have kept: "applyCleaning (?o\<lparr>removeEmptyColsOpt := False\<rparr>) ?t
      = [[js ''a'', js ''b''], [js ''c'', js ''d'', js '''']]"
    by (simp add: eval_clean)
  have out: "applyCleaning ?o ?t = [[js ''a'', js ''b''], [js ''c'', js ''d'']]"
    by (simp add: eval_clean)
  have reach: "\<forall>row\<in>set [[js ''a'', js ''b''], [js ''c'', js ''d'', js '''']].
      \<forall>j. (\<exists>row\<in>set [[js ''a'', js ''b''], [js ''c'', js ''d'', js '''']].
              j < length row \<and> trim (row ! j) \<noteq> []) \<longrightarrow> j < length row"
    by (auto simp: less_Suc_eq numeral_3_eq_3 numeral_2_eq_2 js_def trim_def)
  from C2_row_lengths_after_column_removal [OF h, of ?t 0, unfolded Let_def kept]
  have "(\<forall>r\<in>set (applyCleaning ?o ?t). length r = length (hd (applyCleaning ?o ?t)))
      \<longleftrightarrow> (\<forall>row\<in>set [[js ''a'', js ''b''], [js ''c'', js ''d'', js '''']].
      \<forall>j. (\<exists>row\<in>set [[js ''a'', js ''b''], [js ''c'', js ''d'', js '''']].
              j < length row \<and> trim (row ! j) \<noteq> []) \<longrightarrow> j < length row)"
    by blast
  with reach have "\<forall>r\<in>set (applyCleaning ?o ?t). length r = length (hd (applyCleaning ?o ?t))"
    by (simp only:)
  then have "list_all (\<lambda>r. length r = 2) (applyCleaning ?o ?t)"
    unfolding out by simp
  with h kept out show ?thesis by simp
qed

text \<open>
  C7: the cleaner first normalizes every cell (with \<open>collapseSpaces\<close> the cell is trimmed
  and every run of white space in it becomes one space, without it the cell is kept as it
  is), then (if \<open>removeEmptyRows\<close>) deletes the rows whose cells are all empty after trim,
  then (if \<open>removeEmptyColumns\<close>) deletes the columns that are empty in every row of the
  table that the row pass left. For the input \<open>[["a",""],["","x"]]\<close> with both removals
  on, nothing is deleted. On a table with blank cells, a blank row and a blank column the
  three passes give the normalized cells of the rows and columns that are left.
\<close>

theorem C7_cleaning_order:
  "applyCleaning opts t =
     (let normalized =
            map (map (\<lambda>c. if collapseSpacesOpt opts then collapseWhiteSpace (trim c) else c)) t;
          rowsKept = (if removeEmptyRowsOpt opts
                      then filter (\<lambda>row. \<exists>c\<in>set row. trim c \<noteq> []) normalized
                      else normalized)
      in if removeEmptyColsOpt opts
         then map (\<lambda>row. nths row {j. \<exists>r\<in>set rowsKept. j < length r \<and> trim (r ! j) \<noteq> []})
                rowsKept
         else rowsKept) \<and>
   applyCleaning \<lparr>removeEmptyRowsOpt = True, removeEmptyColsOpt = True, collapseSpacesOpt = b\<rparr>
     [[js ''a'', js ''''], [js '''', js ''x'']] = [[js ''a'', js ''''], [js '''', js ''x'']] \<and>
   applyCleaning \<lparr>removeEmptyRowsOpt = True, removeEmptyColsOpt = True, collapseSpacesOpt = True\<rparr>
     [[js ''  a   b  '', js '' ''], [js '' '', js ''  ''], [js ''c'', [TAB]]]
     = [[js ''a b''], [js ''c'']] \<and>
   applyCleaning \<lparr>removeEmptyRowsOpt = True, removeEmptyColsOpt = True, collapseSpacesOpt = False\<rparr>
     [[js ''  a   b  '', js '' ''], [js '' '', js ''  ''], [js ''c'', [TAB]]]
     = [[js ''  a   b  ''], [js ''c'']] \<and>
   applyCleaning \<lparr>removeEmptyRowsOpt = False, removeEmptyColsOpt = False, collapseSpacesOpt = True\<rparr>
     [[js ''  a   b  '', js '' ''], [js '' '', js ''  ''], [js ''c'', [TAB]]]
     = [[js ''a b'', js ''''], [js '''', js ''''], [js ''c'', js '''']]"
proof (intro conjI)
  have rows: "rowHasAnyValue = (\<lambda>row. \<exists>c\<in>set row. trim c \<noteq> [])"
    by (simp add: fun_eq_iff rowHasAnyValue_iff)
  have norm: "(\<lambda>c. normalizeCell c (collapseSpacesOpt opts))
      = (\<lambda>c. if collapseSpacesOpt opts then collapseWhiteSpace (trim c) else c)"
    by (simp add: fun_eq_iff normalizeCell_def)
  show "applyCleaning opts t =
     (let normalized =
            map (map (\<lambda>c. if collapseSpacesOpt opts then collapseWhiteSpace (trim c) else c)) t;
          rowsKept = (if removeEmptyRowsOpt opts
                      then filter (\<lambda>row. \<exists>c\<in>set row. trim c \<noteq> []) normalized
                      else normalized)
      in if removeEmptyColsOpt opts
         then map (\<lambda>row. nths row {j. \<exists>r\<in>set rowsKept. j < length r \<and> trim (r ! j) \<noteq> []})
                rowsKept
         else rowsKept)"
    unfolding applyCleaning_unfold norm rows
    by (simp add: Let_def removeEmptyColumns_nths colHasValueIn_iff)
next
  show "applyCleaning \<lparr>removeEmptyRowsOpt = True, removeEmptyColsOpt = True, collapseSpacesOpt = b\<rparr>
     [[js ''a'', js ''''], [js '''', js ''x'']] = [[js ''a'', js ''''], [js '''', js ''x'']]"
    by (cases b) (simp_all add: eval_clean)
next
  show "applyCleaning \<lparr>removeEmptyRowsOpt = True, removeEmptyColsOpt = True, collapseSpacesOpt = True\<rparr>
     [[js ''  a   b  '', js '' ''], [js '' '', js ''  ''], [js ''c'', [TAB]]]
     = [[js ''a b''], [js ''c'']]"
    by (simp add: eval_clean TAB_def)
next
  show "applyCleaning \<lparr>removeEmptyRowsOpt = True, removeEmptyColsOpt = True, collapseSpacesOpt = False\<rparr>
     [[js ''  a   b  '', js '' ''], [js '' '', js ''  ''], [js ''c'', [TAB]]]
     = [[js ''  a   b  ''], [js ''c'']]"
    by (simp add: eval_clean TAB_def)
next
  show "applyCleaning \<lparr>removeEmptyRowsOpt = False, removeEmptyColsOpt = False, collapseSpacesOpt = True\<rparr>
     [[js ''  a   b  '', js '' ''], [js '' '', js ''  ''], [js ''c'', [TAB]]]
     = [[js ''a b'', js ''''], [js '''', js ''''], [js ''c'', js '''']]"
    by (simp add: eval_clean TAB_def)
qed

section \<open>The explicit delimiter\<close>

text \<open>
  Splitting on a non-empty literal separator: joining the pieces with the separator gives
  the string back, and no piece contains the separator.
\<close>

lemma splitOn_not_Nil [simp]: "splitOn sep acc s \<noteq> []"
  by (induction sep acc s rule: splitOn.induct) auto

lemma joinWith_Cons: "ys \<noteq> [] \<Longrightarrow> joinWith sep (x # ys) = x @ sep @ joinWith sep ys"
  by (cases ys) auto

lemma join_splitOn: "joinWith sep (splitOn sep acc s) = rev acc @ s"
proof (induction sep acc s rule: splitOn.induct)
  case (1 sep acc)
  then show ?case by simp
next
  case (2 sep acc x xs)
  show ?case
  proof (cases "sep \<noteq> [] \<and> prefix sep (x # xs)")
    case True
    let ?rest = "drop (length sep) (x # xs)"
    from True have glue: "sep @ ?rest = x # xs"
      by (metis append_eq_conv_conj prefix_def)
    from True have "splitOn sep acc (x # xs) = rev acc # splitOn sep [] ?rest"
      by simp
    then have "joinWith sep (splitOn sep acc (x # xs))
        = rev acc @ sep @ joinWith sep (splitOn sep [] ?rest)"
      by (simp only: joinWith_Cons [OF splitOn_not_Nil])
    also have "joinWith sep (splitOn sep [] ?rest) = ?rest"
      using "2.IH" (1) [OF True] by simp
    finally show ?thesis by (simp only: glue)
  next
    case False
    then have "splitOn sep acc (x # xs) = splitOn sep (x # acc) xs" by auto
    with "2.IH" (2) [OF False] show ?thesis by simp
  qed
qed

lemma sublist_start:
  assumes "sep \<noteq> []" "sublist sep (rev acc)"
  shows "\<exists>i<length acc. prefix sep (drop i (rev acc @ s))"
proof -
  from assms(2) obtain ps ss where p: "rev acc = ps @ sep @ ss"
    by (auto simp: sublist_def)
  then have "length acc = length ps + length sep + length ss"
    by (metis length_append length_rev add.assoc)
  with assms(1) have "length ps < length acc" by (cases sep) auto
  moreover have "drop (length ps) (rev acc @ s) = sep @ ss @ s" by (simp add: p)
  ultimately show ?thesis by (intro exI [of _ "length ps"]) simp
qed

lemma splitOn_pieces:
  "sep \<noteq> [] \<Longrightarrow> \<forall>i<length acc. \<not> prefix sep (drop i (rev acc @ s)) \<Longrightarrow>
   \<forall>p\<in>set (splitOn sep acc s). \<not> sublist sep p"
proof (induction sep acc s rule: splitOn.induct)
  case (1 sep acc)
  then show ?case using sublist_start [of sep acc "[]"] by auto
next
  case (2 sep acc x xs)
  have first: "\<not> sublist sep (rev acc)"
    using 2(3,4) sublist_start [of sep acc "x # xs"] by blast
  show ?case
  proof (cases "prefix sep (x # xs)")
    case True
    with 2(1) [of] 2(3) have "\<forall>p\<in>set (splitOn sep [] (drop (length sep) (x # xs))). \<not> sublist sep p"
      by simp
    with True 2(3) first show ?thesis by simp
  next
    case False
    have "\<forall>i<length (x # acc). \<not> prefix sep (drop i (rev (x # acc) @ xs))"
    proof (intro allI impI)
      fix i assume "i < length (x # acc)"
      then consider "i < length acc" | "i = length acc" by fastforce
      then show "\<not> prefix sep (drop i (rev (x # acc) @ xs))"
      proof cases
        case 1
        with 2(4) show ?thesis by simp
      next
        case 2
        with False show ?thesis by simp
      qed
    qed
    with 2(2) 2(3) False show ?thesis by simp
  qed
qed

lemma jsSplit_literal:
  "sep \<noteq> [] \<Longrightarrow>
   joinWith sep (jsSplit s sep) = s \<and> (\<forall>p\<in>set (jsSplit s sep). \<not> sublist sep p)"
  using splitOn_pieces [of sep "[]" s] by (simp add: jsSplit_def join_splitOn)

text \<open>
  C5, as stated, at the specification's own example: the label that the program returns is
  not \<open>custom(,)\<close>; it has a space before the parenthesis.
\<close>

theorem C5_counterexample:
  "snd (tableDetected (\<lambda>_. [])
          \<lparr>removeEmptyRowsOpt = True, removeEmptyColsOpt = True, collapseSpacesOpt = False\<rparr>
          None (js ''a,b'' @ [NL] @ js ''c,d'') (js '',''))
     \<noteq> js ''custom(,)''"
  by (simp add: tableDetected_def js_def)

text \<open>
  C5, amended: for every non-empty explicit delimiter \<open>d\<close> (and no imported table), no
  candidate is scored: the table is the cleaning of the rows obtained by splitting every
  non-empty line on the literal occurrences of \<open>d\<close>, and the label is \<open>custom (\<close>,
  \<open>d\<close>, \<open>)\<close>, with a space after \<open>custom\<close>.
\<close>

theorem C5_explicit_delimiter:
  "d \<noteq> [] \<Longrightarrow> imported = None \<or> imported = Some [] \<Longrightarrow>
   tableDetected papaParse opts imported text d =
     (applyCleaning opts
        (map (\<lambda>line. map (\<lambda>c. normalizeCell c (collapseSpacesOpt opts)) (jsSplit line d))
           (filter (\<lambda>l. l \<noteq> []) (jsSplit text [NL]))),
      js ''custom ('' @ d @ js '')'') \<and>
   joinWith d (jsSplit line d) = line \<and> (\<forall>p\<in>set (jsSplit line d). \<not> sublist d p)"
  using jsSplit_literal [of d line]
  by (auto simp: tableDetected_def parseRowsSimple_def splitLine_def truthy_def)

text \<open>
  The specification's example: the lines \<open>a,b\<close> and \<open>c,d\<close> with the delimiter \<open>,\<close> give
  the table \<open>[["a","b"],["c","d"]]\<close> and the label \<open>custom (,)\<close>.
\<close>

theorem C5_explicit_delimiter_witness:
  "js '','' \<noteq> [] \<and>
   tableDetected (\<lambda>_. [])
     \<lparr>removeEmptyRowsOpt = True, removeEmptyColsOpt = True, collapseSpacesOpt = False\<rparr>
     None (js ''a,b'' @ [NL] @ js ''c,d'') (js '','')
   = ([[js ''a'', js ''b''], [js ''c'', js ''d'']], js ''custom (,)'')"
proof -
  have h: "js '','' \<noteq> []" by (simp add: js_def)
  show ?thesis
    using h C5_explicit_delimiter [OF h, of None "\<lambda>_. []"
        "\<lparr>removeEmptyRowsOpt = True, removeEmptyColsOpt = True, collapseSpacesOpt = False\<rparr>"
        "js ''a,b'' @ [NL] @ js ''c,d''" "[]"]
    by (simp add: jsSplit_def eval_clean NL_def)
qed

section \<open>Markdown serialization\<close>

lemma mathMax_Max: "xs \<noteq> [] \<Longrightarrow> mathMax xs = Max (set xs)"
proof (cases xs)
  case Nil
  assume "xs \<noteq> []"
  with Nil show ?thesis by simp
next
  case (Cons a as)
  show ?thesis unfolding Cons mathMax_def Max.set_eq_fold by simp
qed

lemma cellAt_pad:
  "length r \<le> n \<Longrightarrow> map (cellAt r) [0..<n] = r @ replicate (n - length r) []"
  by (auto simp: list_eq_iff_nth_eq cellAt_def nth_append)

lemma replaceNewlines_no_NL: "NL \<notin> set (replaceNewlines s)"
  by (induction s rule: replaceNewlines.induct) (auto simp: SP_def NL_def)

lemma escapePipes_set: "set (escapePipes s) \<subseteq> set s \<union> {BACKSLASH}"
  by (auto simp: escapePipes_def split: if_splits)

lemma escapeMarkdownCell_no_NL: "NL \<notin> set (escapeMarkdownCell s)"
  using escapePipes_set [of "replaceNewlines s"] replaceNewlines_no_NL [of s]
  by (auto simp: escapeMarkdownCell_def NL_def BACKSLASH_def)

lemma replaceNewlines_no_CR:
  "CR \<notin> set s \<Longrightarrow> replaceNewlines s = map (\<lambda>c. if c = NL then SP else c) s"
  by (induction s rule: replaceNewlines.induct) auto

lemma escapeMarkdownCell_no_CR:
  "CR \<notin> set s \<Longrightarrow>
   escapeMarkdownCell s =
     concat (map (\<lambda>c. if c = NL then [SP] else if c = PIPE then [BACKSLASH, PIPE] else [c]) s)"
proof -
  assume "CR \<notin> set s"
  then have "escapeMarkdownCell s = escapePipes (map (\<lambda>c. if c = NL then SP else c) s)"
    by (simp add: escapeMarkdownCell_def replaceNewlines_no_CR)
  also have "\<dots> = concat (map (\<lambda>c. if c = NL then [SP] else if c = PIPE then [BACKSLASH, PIPE] else [c]) s)"
    unfolding escapePipes_def map_map comp_def
    by (intro arg_cong [where f = concat] map_cong) (auto simp: SP_def PIPE_def)
  finally show ?thesis .
qed

lemma escapePipes_Cons:
  "escapePipes (c # cs) = (if c = PIPE then [BACKSLASH, PIPE] else [c]) @ escapePipes cs"
  by (simp add: escapePipes_def)

lemma replaceNewlines_NL: "replaceNewlines (NL # cs) = SP # replaceNewlines cs"
  by (cases cs) (simp_all add: NL_def CR_def)

lemma replaceNewlines_other:
  "c \<noteq> NL \<Longrightarrow> \<not> (c = CR \<and> cs \<noteq> [] \<and> hd cs = NL) \<Longrightarrow>
   replaceNewlines (c # cs) = c # replaceNewlines cs"
  by (cases cs) auto

lemma escapeMarkdownCell_equations:
  "escapeMarkdownCell [] = []"
  "escapeMarkdownCell (CR # NL # cs) = SP # escapeMarkdownCell cs"
  "escapeMarkdownCell (NL # cs) = SP # escapeMarkdownCell cs"
  "escapeMarkdownCell (PIPE # cs) = BACKSLASH # PIPE # escapeMarkdownCell cs"
  "c \<noteq> NL \<Longrightarrow> c \<noteq> PIPE \<Longrightarrow> \<not> (c = CR \<and> cs \<noteq> [] \<and> hd cs = NL) \<Longrightarrow>
   escapeMarkdownCell (c # cs) = c # escapeMarkdownCell cs"
proof -
  show "escapeMarkdownCell [] = []"
    by (simp add: escapeMarkdownCell_def escapePipes_def)
  show "escapeMarkdownCell (CR # NL # cs) = SP # escapeMarkdownCell cs"
    by (simp add: escapeMarkdownCell_def escapePipes_Cons SP_def PIPE_def)
  show "escapeMarkdownCell (NL # cs) = SP # escapeMarkdownCell cs"
    by (simp add: escapeMarkdownCell_def replaceNewlines_NL escapePipes_Cons SP_def PIPE_def)
  have "replaceNewlines (PIPE # cs) = PIPE # replaceNewlines cs"
    by (rule replaceNewlines_other) (simp_all add: PIPE_def NL_def CR_def)
  then show "escapeMarkdownCell (PIPE # cs) = BACKSLASH # PIPE # escapeMarkdownCell cs"
    by (simp add: escapeMarkdownCell_def escapePipes_Cons)
  show "escapeMarkdownCell (c # cs) = c # escapeMarkdownCell cs"
    if "c \<noteq> NL" "c \<noteq> PIPE" "\<not> (c = CR \<and> cs \<noteq> [] \<and> hd cs = NL)"
    using that by (simp add: escapeMarkdownCell_def replaceNewlines_other escapePipes_Cons)
qed

text \<open>
  C9: for a table that is not empty, the Markdown text is the lines joined by newlines:
  the header line of the first row, the separator line with one \<open>---\<close> per column, and one
  line per further row; every row is padded with empty strings to the maximum row length
  and every line is \<open>| c1 | c2 | ... |\<close>. In every cell, read from left to right, a
  \<open>\r\n\<close> becomes one space, a newline becomes one space, a pipe gets a backslash before
  it, and every other code unit (a carriage return without a newline after it too) stays;
  so an escaped cell contains no newline. The table \<open>[["H1","H2"],["v|1","v2"]]\<close> gives
  the three lines \<open>| H1 | H2 |\<close>, \<open>| --- | --- |\<close>, \<open>| v\|1 | v2 |\<close>.
\<close>

theorem C9_markdown:
  "(data \<noteq> [] \<longrightarrow>
     toMarkdownTable data =
       (let n = Max (set (map length data));
            pad = (\<lambda>r. r @ replicate (n - length r) []);
            line = (\<lambda>cells. js ''| '' @ joinWith (js '' | '') cells @ js '' |'')
        in joinWith [NL]
             (line (map escapeMarkdownCell (pad (hd data)))
              # line (replicate n (js ''---''))
              # map (\<lambda>r. line (map escapeMarkdownCell (pad r))) (tl data)))) \<and>
   NL \<notin> set (escapeMarkdownCell cell) \<and>
   (CR \<notin> set cell \<longrightarrow>
     escapeMarkdownCell cell =
       concat (map (\<lambda>c. if c = NL then [SP] else if c = PIPE then [BACKSLASH, PIPE] else [c])
                 cell)) \<and>
   escapeMarkdownCell [] = [] \<and>
   escapeMarkdownCell (CR # NL # cs) = SP # escapeMarkdownCell cs \<and>
   escapeMarkdownCell (NL # cs) = SP # escapeMarkdownCell cs \<and>
   escapeMarkdownCell (PIPE # cs) = BACKSLASH # PIPE # escapeMarkdownCell cs \<and>
   (c \<noteq> NL \<and> c \<noteq> PIPE \<and> \<not> (c = CR \<and> cs \<noteq> [] \<and> hd cs = NL) \<longrightarrow>
      escapeMarkdownCell (c # cs) = c # escapeMarkdownCell cs) \<and>
   toMarkdownTable [[js ''H1'', js ''H2''], [js ''v|1'', js ''v2'']] =
     js ''| H1 | H2 |'' @ [NL] @ js ''| --- | --- |'' @ [NL] @
     js ''| v'' @ [BACKSLASH] @ js ''|1 | v2 |''"
proof (intro conjI impI)
  assume ne: "data \<noteq> []"
  define n where "n = Max (set (map length data))"
  have n: "mathMax (map length data) = n"
    using ne by (simp add: mathMax_Max n_def)
  have le: "length r \<le> n" if "r \<in> set data" for r
    using that by (simp add: n_def)
  have pad: "map (\<lambda>r. map escapeMarkdownCell (map (cellAt r) [0..<n])) data
      = map (\<lambda>r. map escapeMarkdownCell (r @ replicate (n - length r) [])) data"
    by (rule map_cong) (simp_all add: cellAt_pad le)
  obtain r rs where data: "data = r # rs" using ne by (cases data) auto
  show "toMarkdownTable data =
       (let n = Max (set (map length data));
            pad = (\<lambda>r. r @ replicate (n - length r) []);
            line = (\<lambda>cells. js ''| '' @ joinWith (js '' | '') cells @ js '' |'')
        in joinWith [NL]
             (line (map escapeMarkdownCell (pad (hd data)))
              # line (replicate n (js ''---''))
              # map (\<lambda>r. line (map escapeMarkdownCell (pad r))) (tl data)))"
    unfolding toMarkdownTable_def Let_def n pad n_def [symmetric]
    using le [of r]
    by (simp add: data mdLine_def map_replicate_const comp_def)
next
  show "NL \<notin> set (escapeMarkdownCell cell)" by (rule escapeMarkdownCell_no_NL)
next
  assume "CR \<notin> set cell"
  then show "escapeMarkdownCell cell =
       concat (map (\<lambda>c. if c = NL then [SP] else if c = PIPE then [BACKSLASH, PIPE] else [c])
                 cell)"
    by (rule escapeMarkdownCell_no_CR)
next
  show "escapeMarkdownCell [] = []" by (rule escapeMarkdownCell_equations)
next
  show "escapeMarkdownCell (CR # NL # cs) = SP # escapeMarkdownCell cs"
    by (rule escapeMarkdownCell_equations)
next
  show "escapeMarkdownCell (NL # cs) = SP # escapeMarkdownCell cs"
    by (rule escapeMarkdownCell_equations)
next
  show "escapeMarkdownCell (PIPE # cs) = BACKSLASH # PIPE # escapeMarkdownCell cs"
    by (rule escapeMarkdownCell_equations)
next
  assume "c \<noteq> NL \<and> c \<noteq> PIPE \<and> \<not> (c = CR \<and> cs \<noteq> [] \<and> hd cs = NL)"
  then show "escapeMarkdownCell (c # cs) = c # escapeMarkdownCell cs"
    by (intro escapeMarkdownCell_equations(5)) simp_all
next
  show "toMarkdownTable [[js ''H1'', js ''H2''], [js ''v|1'', js ''v2'']] =
     js ''| H1 | H2 |'' @ [NL] @ js ''| --- | --- |'' @ [NL] @
     js ''| v'' @ [BACKSLASH] @ js ''|1 | v2 |''"
    by (simp add: toMarkdownTable_def mathMax_def cellAt_def mdLine_def escapeMarkdownCell_def
        escapePipes_def js_def char_defs Let_def)
qed

text \<open>The definitions that evaluate the serializer on a concrete table.\<close>

lemmas eval_markdown =
  toMarkdownTable_def mathMax_def cellAt_def mdLine_def escapeMarkdownCell_def
  escapePipes_def js_def char_defs Let_def

text \<open>
  An instance of C9 on a ragged table with a \<open>\r\n\<close>, a newline and a pipe inside cells.
\<close>

theorem C9_markdown_witness:
  "[[js ''a''], [[0x62, CR, NL, 0x63, NL], js ''d|'']] \<noteq> [] \<and>
   CR \<notin> set (js ''x|y'') \<and>
   escapeMarkdownCell (js ''x|y'') = js ''x'' @ [BACKSLASH] @ js ''|y'' \<and>
   escapeMarkdownCell [CR, PIPE, CR, NL, PIPE] = [CR, BACKSLASH, PIPE, SP, BACKSLASH, PIPE] \<and>
   toMarkdownTable [[js ''a''], [[0x62, CR, NL, 0x63, NL], js ''d|'']] =
     js ''| a |  |'' @ [NL] @ js ''| --- | --- |'' @ [NL] @
     js ''| b c  | d'' @ [BACKSLASH] @ js ''| |''"
proof -
  have cell: "escapeMarkdownCell [CR, PIPE, CR, NL, PIPE] = [CR, BACKSLASH, PIPE, SP, BACKSLASH, PIPE]"
    by (simp add: eval_markdown)
  show ?thesis
    using C9_markdown [where data = "[[js ''a''], [[0x62, CR, NL, 0x63, NL], js ''d|'']]"
        and cell = "js ''x|y''" and c = CR and cs = "[PIPE, CR, NL, PIPE]"]
    by (simp add: cell) (simp add: eval_markdown)
qed

section \<open>The selection loop\<close>

lemma chooseStep_score:
  "chooseStep lines b c (t, l, s) =
     (if scoreLess (candidateScore lines b c) s
      then (parseRowsSimple lines (delim c) b, name c, candidateScore lines b c)
      else (t, l, s))"
  by (simp add: chooseStep_def candidateScore_def Let_def)

lemma chooseLoop_Nil [simp]: "chooseLoop lines b [] st = st"
  by (simp add: chooseLoop_def)

lemma chooseLoop_Cons [simp]:
  "chooseLoop lines b (c # cs) st = chooseLoop lines b cs (chooseStep lines b c st)"
  by (simp add: chooseLoop_def)

lemma chooseLoop_append:
  "chooseLoop lines b (cs @ ds) st = chooseLoop lines b ds (chooseLoop lines b cs st)"
  by (simp add: chooseLoop_def)

lemma scoreLess_trans: "scoreLess a b \<Longrightarrow> scoreLess b c \<Longrightarrow> scoreLess a c"
  by (cases a; cases b; cases c) auto

lemma scoreLess_irrefl: "\<not> scoreLess a a"
  by (cases a) auto

lemma scoreLess_Infinity: "scoreLess a Infinity \<longleftrightarrow> a \<noteq> Infinity"
  by (cases a) auto

lemma chooseLoop_keep:
  "\<forall>c\<in>set cs. \<not> scoreLess (candidateScore lines b c) s \<Longrightarrow>
   chooseLoop lines b cs (t, l, s) = (t, l, s)"
  by (induction cs) (auto simp: chooseStep_score)

lemma chooseLoop_above:
  "scoreLess x s \<Longrightarrow> \<forall>c\<in>set cs. scoreLess x (candidateScore lines b c) \<Longrightarrow>
   scoreLess x (snd (snd (chooseLoop lines b cs (t, l, s))))"
  by (induction cs arbitrary: t l s) (auto simp: chooseStep_score)

lemma chooseLoop_first_lowest:
  assumes i: "i < length cs"
    and start: "scoreLess (candidateScore lines b (cs ! i)) s0"
    and before: "\<forall>j<i. scoreLess (candidateScore lines b (cs ! i)) (candidateScore lines b (cs ! j))"
    and after: "\<forall>j<length cs. i < j \<longrightarrow>
        \<not> scoreLess (candidateScore lines b (cs ! j)) (candidateScore lines b (cs ! i))"
  shows "chooseLoop lines b cs (t0, l0, s0) =
      (parseRowsSimple lines (delim (cs ! i)) b, name (cs ! i), candidateScore lines b (cs ! i))"
proof -
  let ?x = "candidateScore lines b (cs ! i)"
  have split: "cs = take i cs @ cs ! i # drop (Suc i) cs"
    using i by (rule id_take_nth_drop)
  obtain t1 l1 s1 where st1: "chooseLoop lines b (take i cs) (t0, l0, s0) = (t1, l1, s1)"
    by (cases "chooseLoop lines b (take i cs) (t0, l0, s0)") auto
  have "\<forall>c\<in>set (take i cs). scoreLess ?x (candidateScore lines b c)"
    using before i by (auto simp: in_set_conv_nth)
  from chooseLoop_above [OF start this, of t0 l0] have s1: "scoreLess ?x s1"
    by (simp add: st1)
  have keep: "\<forall>c\<in>set (drop (Suc i) cs). \<not> scoreLess (candidateScore lines b c) ?x"
  proof
    fix c assume "c \<in> set (drop (Suc i) cs)"
    then obtain k where "k < length cs - Suc i" "c = cs ! (Suc i + k)"
      by (auto simp: in_set_conv_nth)
    with after show "\<not> scoreLess (candidateScore lines b c) ?x" by auto
  qed
  have "chooseLoop lines b cs (t0, l0, s0) =
      chooseLoop lines b (drop (Suc i) cs) (chooseStep lines b (cs ! i) (t1, l1, s1))"
    by (subst split) (simp add: chooseLoop_append st1)
  also have "\<dots> = (parseRowsSimple lines (delim (cs ! i)) b, name (cs ! i), ?x)"
    using s1 keep by (simp add: chooseStep_score chooseLoop_keep)
  finally show ?thesis .
qed

lemma scoreLess_asym: "scoreLess a b \<Longrightarrow> \<not> scoreLess b a"
  by (cases a; cases b) auto

lemma scoreLess_negtrans: "\<not> scoreLess a b \<Longrightarrow> \<not> scoreLess b c \<Longrightarrow> \<not> scoreLess a c"
  by (cases a; cases b; cases c) auto

lemma first_lowest_exists:
  "ss \<noteq> [] \<Longrightarrow>
   \<exists>i<length ss. (\<forall>j<i. scoreLess (ss ! i) (ss ! j)) \<and> (\<forall>j<length ss. \<not> scoreLess (ss ! j) (ss ! i))"
proof (induction ss)
  case Nil
  then show ?case by simp
next
  case (Cons x xs)
  show ?case
  proof (cases "xs = []")
    case True
    then show ?thesis by (auto simp: scoreLess_irrefl)
  next
    case False
    from Cons.IH [OF False] obtain i where i: "i < length xs"
      and before: "\<forall>j<i. scoreLess (xs ! i) (xs ! j)"
      and least: "\<forall>j<length xs. \<not> scoreLess (xs ! j) (xs ! i)" by blast
    show ?thesis
    proof (cases "scoreLess (xs ! i) x")
      case True
      have "\<forall>j<Suc i. scoreLess ((x # xs) ! Suc i) ((x # xs) ! j)"
        using True before by (auto simp: nth_Cons split: nat.splits)
      moreover have "\<forall>j<length (x # xs). \<not> scoreLess ((x # xs) ! j) ((x # xs) ! Suc i)"
        using True least scoreLess_asym by (auto simp: nth_Cons split: nat.splits)
      ultimately show ?thesis using i by (intro exI [of _ "Suc i"]) simp
    next
      case nl: False
      have "\<forall>j<length (x # xs). \<not> scoreLess ((x # xs) ! j) ((x # xs) ! 0)"
      proof (intro allI impI)
        fix j assume j: "j < length (x # xs)"
        show "\<not> scoreLess ((x # xs) ! j) ((x # xs) ! 0)"
        proof (cases j)
          case 0
          then show ?thesis by (simp add: scoreLess_irrefl)
        next
          case (Suc k)
          with j least have "\<not> scoreLess (xs ! k) (xs ! i)" by simp
          from scoreLess_negtrans [OF this nl] Suc show ?thesis by simp
        qed
      qed
      then show ?thesis by (intro exI [of _ 0]) simp
    qed
  qed
qed

lemma firstLowestFinite_exists:
  assumes "\<exists>c\<in>set candidates. candidateScore lines b c \<noteq> Infinity"
  shows "\<exists>i. firstLowestFinite lines b i"
proof -
  let ?ss = "map (candidateScore lines b) candidates"
  have "?ss \<noteq> []" by (simp add: candidates_def)
  from first_lowest_exists [OF this] obtain i where i: "i < length candidates"
    and before: "\<forall>j<i. scoreLess (?ss ! i) (?ss ! j)"
    and least: "\<forall>j<length candidates. \<not> scoreLess (?ss ! j) (?ss ! i)" by auto
  from assms obtain k where k: "k < length candidates"
    "candidateScore lines b (candidates ! k) \<noteq> Infinity"
    by (auto simp: in_set_conv_nth)
  have fin: "candidateScore lines b (candidates ! i) \<noteq> Infinity"
  proof
    assume "candidateScore lines b (candidates ! i) = Infinity"
    with k have "scoreLess (?ss ! k) (?ss ! i)" using i by (simp add: scoreLess_Infinity)
    with least k show False by blast
  qed
  have "firstLowestFinite lines b i"
    unfolding firstLowestFinite_def using i fin before least by auto
  then show ?thesis ..
qed

lemma chooseBest_all_infinite:
  assumes "\<forall>c\<in>set candidates. candidateScore lines b c = Infinity"
  shows "chooseBestTableSimple lines b = ([], js ''auto'')"
proof -
  from assms have "\<forall>c\<in>set candidates. \<not> scoreLess (candidateScore lines b c) Infinity"
    by simp
  then show ?thesis by (simp add: chooseBestTableSimple_loop chooseLoop_keep)
qed

text \<open>
  C4, as stated, at the single line \<open>abc\<close>: all four candidates tie at an infinite score,
  and the result is not the first candidate of the tie (tabs) but the empty table with the
  label \<open>auto\<close>.
\<close>

theorem C4_counterexample:
  "map (candidateScore [js ''abc''] False) candidates = [Infinity, Infinity, Infinity, Infinity] \<and>
   chooseBestTableSimple [js ''abc''] False = ([], js ''auto'') \<and>
   chooseBestTableSimple [js ''abc''] False \<noteq>
     (parseRowsSimple [js ''abc''] (delim (candidates ! 0)) False, name (candidates ! 0))"
  by (simp add: eval_choose)

text \<open>
  C4, amended: the candidates are scanned in the order tabs, pipe, semicolon, spaces. The
  first candidate with the lowest score is selected when that score is finite: its table
  and its name are returned, and a candidate whose score equals the best score so far
  leaves the best table and its name as they are. When every candidate scores infinite,
  no candidate is selected: the empty table and the label \<open>auto\<close> are returned. Whenever
  some candidate has a finite score, there is such a first candidate with the lowest score.
\<close>

theorem C4_first_lowest_finite_score_wins:
  "(firstLowestFinite lines b i \<longrightarrow>
      chooseBestTableSimple lines b =
        (parseRowsSimple lines (delim (candidates ! i)) b, name (candidates ! i))) \<and>
   ((\<forall>c\<in>set candidates. candidateScore lines b c = Infinity) \<longrightarrow>
      chooseBestTableSimple lines b = ([], js ''auto'')) \<and>
   ((\<exists>c\<in>set candidates. candidateScore lines b c \<noteq> Infinity) \<longrightarrow>
      (\<exists>k. firstLowestFinite lines b k)) \<and>
   map name candidates = [js ''tabs'', js ''pipe'', js ''semicolon'', js ''spaces''] \<and>
   (candidateScore lines b c = bestScore \<longrightarrow>
      chooseStep lines b c (best, bestDetected, bestScore) = (best, bestDetected, bestScore))"
proof (intro conjI impI)
  assume "firstLowestFinite lines b i"
  then have i: "i < length candidates"
    and fin: "candidateScore lines b (candidates ! i) \<noteq> Infinity"
    and before: "\<forall>j<i. scoreLess (candidateScore lines b (candidates ! i))
        (candidateScore lines b (candidates ! j))"
    and after: "\<forall>j<length candidates. i < j \<longrightarrow>
        \<not> scoreLess (candidateScore lines b (candidates ! j))
            (candidateScore lines b (candidates ! i))"
    by (simp_all add: firstLowestFinite_def)
  from fin have "scoreLess (candidateScore lines b (candidates ! i)) Infinity"
    by (simp add: scoreLess_Infinity)
  from chooseLoop_first_lowest [OF i this before after]
  show "chooseBestTableSimple lines b =
      (parseRowsSimple lines (delim (candidates ! i)) b, name (candidates ! i))"
    by (simp add: chooseBestTableSimple_loop)
next
  assume "\<forall>c\<in>set candidates. candidateScore lines b c = Infinity"
  then show "chooseBestTableSimple lines b = ([], js ''auto'')"
    by (rule chooseBest_all_infinite)
next
  assume "\<exists>c\<in>set candidates. candidateScore lines b c \<noteq> Infinity"
  then show "\<exists>k. firstLowestFinite lines b k" by (rule firstLowestFinite_exists)
next
  show "map name candidates = [js ''tabs'', js ''pipe'', js ''semicolon'', js ''spaces'']"
    by (simp add: candidates_def)
next
  assume "candidateScore lines b c = bestScore"
  then show "chooseStep lines b c (best, bestDetected, bestScore) = (best, bestDetected, bestScore)"
    by (simp add: chooseStep_score scoreLess_irrefl)
qed

section \<open>No delimiter signal\<close>

lemma splitOn_absent: "c \<notin> set s \<Longrightarrow> splitOn [c] acc s = [rev acc @ s]"
  by (induction s arbitrary: acc) auto

lemma splitSpaceRuns_none: "\<not> hasSpaceRun s \<Longrightarrow> splitSpaceRuns acc s = [rev acc @ s]"
  by (induction acc s rule: splitSpaceRuns.induct) auto

lemma splitLine_noSignal:
  "noDelimiterSignal line \<Longrightarrow> c \<in> set candidates \<Longrightarrow> splitLine line (delim c) = [line]"
  by (auto simp: noDelimiterSignal_def candidates_def splitLine_def truthy_def jsSplit_def
      splitOn_absent splitSpaceRuns_none)

lemma fold_max_le: "a \<le> m \<Longrightarrow> \<forall>x\<in>set xs. x \<le> m \<Longrightarrow> fold max xs (a::nat) \<le> m"
  by (induction xs arbitrary: a) auto

lemma scoreTable_no_split: "\<forall>r\<in>set t. length r \<le> 1 \<Longrightarrow> scoreTable t = Infinity"
proof -
  assume a: "\<forall>r\<in>set t. length r \<le> 1"
  have "mathMax (filter (\<lambda>n. n > 0) (map length t)) \<le> 1"
    unfolding mathMax_def using a by (intro fold_max_le) auto
  then show ?thesis by (simp add: scoreTable_def Let_def)
qed

lemma candidateScore_noSignal:
  assumes "\<forall>l\<in>set lines. noDelimiterSignal l" "c \<in> set candidates"
  shows "candidateScore lines b c = Infinity"
  unfolding candidateScore_def
  by (rule scoreTable_no_split) (use assms in \<open>auto simp: parseRowsSimple_def splitLine_noSignal\<close>)

text \<open>
  C6, as stated, at the single line \<open>abc\<close>: the whitespace-run split of the line is the
  one-cell row, but the table that auto-detection returns is empty.
\<close>

theorem C6_counterexample:
  "fst (chooseBestTableSimple [js ''abc''] False) \<noteq> map (splitSpaceRuns []) [js ''abc''] \<and>
   chooseBestTableSimple [js ''abc''] False = ([], js ''auto'') \<and>
   map (splitSpaceRuns []) [js ''abc''] = [[js ''abc'']]"
  by (simp add: chooseBestTableSimple_def chooseLoop_def chooseStep_def candidates_def
      parseRowsSimple_def splitLine_def truthy_def jsSplit_def scoreTable_def mathMax_def
      normalizeCell_def js_def char_defs Let_def)

text \<open>
  C6, amended: when no line contains a tab, a semicolon, a pipe or a run of two or more
  spaces, every candidate scores infinite, no candidate is selected, and auto-detection
  returns the empty table with the label \<open>auto\<close>; the caller's check for a real table
  (some row with more than one cell) fails on it.
\<close>

theorem C6_no_signal_no_table:
  assumes "\<forall>l\<in>set lines. noDelimiterSignal l"
  shows "(\<forall>c\<in>set candidates. candidateScore lines b c = Infinity) \<and>
         chooseBestTableSimple lines b = ([], js ''auto'') \<and>
         \<not> hasTable (applyCleaning opts (fst (chooseBestTableSimple lines b)))"
proof -
  have inf: "\<forall>c\<in>set candidates. candidateScore lines b c = Infinity"
    using assms by (simp add: candidateScore_noSignal)
  then have "\<forall>c\<in>set candidates. \<not> scoreLess (candidateScore lines b c) Infinity"
    by simp
  then have choose: "chooseBestTableSimple lines b = ([], js ''auto'')"
    by (simp add: chooseBestTableSimple_loop chooseLoop_keep)
  have "applyCleaning opts [] = []"
    by (simp add: applyCleaning_def removeEmptyColumns_def)
  with inf choose show ?thesis by (simp add: hasTable_def)
qed

text \<open>
  An instance of the amended C4 with a tie: on the lines \<open>a;b|c\<close> and \<open>d;e|f\<close> the candidates pipe,
  semicolon and spaces all score 0, and pipe, the earliest of them, is selected.
\<close>

theorem C4_first_lowest_finite_score_wins_witness:
  "(1::nat) < length candidates \<and>
   map (candidateScore [js ''a;b|c'', js ''d;e|f''] False) candidates
     = [Infinity, Finite 0, Finite 0, Finite 0] \<and>
   firstLowestFinite [js ''a;b|c'', js ''d;e|f''] False 1 \<and>
   chooseBestTableSimple [js ''a;b|c'', js ''d;e|f''] False
     = ([[js ''a;b'', js ''c''], [js ''d;e'', js ''f'']], js ''pipe'')"
proof -
  let ?L = "[js ''a;b|c'', js ''d;e|f'']"
  have len: "(1::nat) < length candidates" by (simp add: candidates_def)
  have sc: "map (candidateScore ?L False) candidates = [Infinity, Finite 0, Finite 0, Finite 0]"
    by (simp add: eval_choose)
  have nth: "candidateScore ?L False (candidates ! j) =
      [Infinity, Finite 0, Finite 0, Finite 0] ! j" if "j < length candidates" for j
    using that nth_map [of j candidates "candidateScore ?L False"] by (simp only: sc)
  have four: "j = 0 \<or> j = 1 \<or> j = 2 \<or> j = 3" if "j < length candidates" for j
    using that by (auto simp: candidates_def)
  have fin: "candidateScore ?L False (candidates ! 1) \<noteq> Infinity"
    using nth [OF len] by simp
  have before: "\<forall>j<1. scoreLess (candidateScore ?L False (candidates ! 1))
      (candidateScore ?L False (candidates ! j))"
    using nth [OF len] nth [of 0] by (simp add: candidates_def)
  have after: "\<forall>j<length candidates. 1 < j \<longrightarrow>
      \<not> scoreLess (candidateScore ?L False (candidates ! j))
          (candidateScore ?L False (candidates ! 1))"
  proof (intro allI impI)
    fix j assume j: "j < length candidates" "1 < j"
    with four [of j] have "j = 2 \<or> j = 3" by auto
    with nth [OF len] nth [OF j(1)]
    show "\<not> scoreLess (candidateScore ?L False (candidates ! j))
          (candidateScore ?L False (candidates ! 1))"
      by auto
  qed
  from len fin before after have first: "firstLowestFinite ?L False 1"
    by (simp only: firstLowestFinite_def simp_thms)
  from C4_first_lowest_finite_score_wins [of ?L False 1] first
  have "chooseBestTableSimple ?L False =
      (parseRowsSimple ?L (delim (candidates ! 1)) False, name (candidates ! 1))"
    by blast
  then have "chooseBestTableSimple ?L False
      = ([[js ''a;b'', js ''c''], [js ''d;e'', js ''f'']], js ''pipe'')"
    by (simp add: candidates_def parseRowsSimple_def splitLine_def truthy_def jsSplit_def
        normalizeCell_def js_def char_defs)
  with len sc first show ?thesis by simp
qed

text \<open>An instance of the amended C6 on two lines without any delimiter signal.\<close>

theorem C6_no_signal_no_table_witness:
  "list_all noDelimiterSignal [js ''abc'', js ''d e, f''] \<and>
   map (candidateScore [js ''abc'', js ''d e, f''] True) candidates
     = [Infinity, Infinity, Infinity, Infinity] \<and>
   chooseBestTableSimple [js ''abc'', js ''d e, f''] True = ([], js ''auto'') \<and>
   \<not> hasTable (applyCleaning
        \<lparr>removeEmptyRowsOpt = True, removeEmptyColsOpt = True, collapseSpacesOpt = True\<rparr>
        (fst (chooseBestTableSimple [js ''abc'', js ''d e, f''] True)))"
proof -
  let ?L = "[js ''abc'', js ''d e, f'']"
  have h: "\<forall>l\<in>set ?L. noDelimiterSignal l"
    by (simp add: noDelimiterSignal_def js_def char_defs)
  from C6_no_signal_no_table [OF h, of True
      "\<lparr>removeEmptyRowsOpt = True, removeEmptyColsOpt = True, collapseSpacesOpt = True\<rparr>"]
  show ?thesis using h
    by (simp add: candidates_def applyCleaning_def removeEmptyColumns_def hasTable_def)
qed

section \<open>The consistency score\<close>

subsection \<open>The frequency map\<close>

lemma countLengths_snoc:
  "countLengths (ls @ [x]) =
     AList.update x (mapGetOr0 (countLengths ls) x + 1) (countLengths ls)"
  by (simp add: countLengths_def)

lemma countLengths_get: "mapGetOr0 (countLengths ls) n = count_list ls n"
proof (induction ls rule: rev_induct)
  case Nil
  then show ?case by (simp add: countLengths_def mapGetOr0_def)
next
  case (snoc x ls)
  then show ?case
    by (auto simp: countLengths_snoc mapGetOr0_def update_conv')
qed

lemma countLengths_keys_snoc:
  "map fst (countLengths (ls @ [x])) =
     (if x \<in> set (map fst (countLengths ls)) then map fst (countLengths ls)
      else map fst (countLengths ls) @ [x])"
  by (simp only: countLengths_snoc update_keys)

lemma countLengths_keys_set: "set (map fst (countLengths ls)) = set ls"
proof (induction ls rule: rev_induct)
  case Nil
  then show ?case by (simp add: countLengths_def)
next
  case (snoc x ls)
  then show ?case by (auto simp only: countLengths_keys_snoc set_append set_simps split: if_splits)
qed

lemma countLengths_distinct: "distinct (map fst (countLengths ls))"
proof (induction ls rule: rev_induct)
  case Nil
  then show ?case by (simp add: countLengths_def)
next
  case (snoc x ls)
  then show ?case by (simp only: countLengths_snoc distinct_update)
qed

lemma countLengths_map_of:
  "map_of (countLengths ls) n = (if n \<in> set ls then Some (count_list ls n) else None)"
proof (cases "n \<in> set ls")
  case True
  then have "n \<in> fst ` set (countLengths ls)"
    using countLengths_keys_set [of ls] by simp
  then obtain v where v: "map_of (countLengths ls) n = Some v"
    by (metis domD dom_map_of_conv_image_fst)
  with countLengths_get [of ls n] have "v = count_list ls n"
    by (simp add: mapGetOr0_def)
  with v True show ?thesis by simp
next
  case False
  then have "n \<notin> fst ` set (countLengths ls)"
    using countLengths_keys_set [of ls] by simp
  then have "map_of (countLengths ls) n = None"
    by (simp add: map_of_eq_None_iff)
  with False show ?thesis by simp
qed

lemma countLengths_entry:
  "(k, f) \<in> set (countLengths ls) \<longleftrightarrow> k \<in> set ls \<and> f = count_list ls k"
proof -
  have "(k, f) \<in> set (countLengths ls) \<longleftrightarrow> map_of (countLengths ls) k = Some f"
    by (rule map_of_eq_Some_iff [OF countLengths_distinct, symmetric])
  also have "\<dots> \<longleftrightarrow> k \<in> set ls \<and> f = count_list ls k"
    by (auto simp: countLengths_map_of)
  finally show ?thesis .
qed

text \<open>The keys are in the order of first occurrence.\<close>

lemma takeWhile_snoc_mem:
  "m \<in> set ls \<Longrightarrow> takeWhile (\<lambda>x. x \<noteq> m) (ls @ [y]) = takeWhile (\<lambda>x. x \<noteq> m) ls"
  by (induction ls) auto

lemma takeWhile_snoc_new:
  "x \<notin> set ls \<Longrightarrow> takeWhile (\<lambda>y. y \<noteq> x) (ls @ [x]) = ls"
  by (induction ls) auto

lemma countLengths_keys_order:
  "map fst (countLengths ls) = ks1 @ m # ks2 \<Longrightarrow>
   set (takeWhile (\<lambda>x. x \<noteq> m) ls) \<subseteq> set ks1"
proof (induction ls arbitrary: ks2 rule: rev_induct)
  case Nil
  then show ?case by simp
next
  case (snoc x ls)
  let ?ks = "map fst (countLengths ls)"
  have step: "set (takeWhile (\<lambda>x. x \<noteq> m) (ls @ [x])) \<subseteq> set ks1"
    if keys: "?ks = ks1 @ m # ks2'" for ks2'
  proof -
    have "m \<in> set ?ks" unfolding keys by simp
    then have "m \<in> set ls" by (simp only: countLengths_keys_set)
    then have "takeWhile (\<lambda>x. x \<noteq> m) (ls @ [x]) = takeWhile (\<lambda>x. x \<noteq> m) ls"
      by (rule takeWhile_snoc_mem)
    with snoc.IH [OF keys] show ?thesis by (simp only:)
  qed
  show ?case
  proof (cases "x \<in> set ?ks")
    case True
    then have "map fst (countLengths (ls @ [x])) = ?ks"
      by (simp only: countLengths_keys_snoc if_True)
    with snoc.prems have "?ks = ks1 @ m # ks2" by (simp only:)
    then show ?thesis by (rule step)
  next
    case False
    then have "map fst (countLengths (ls @ [x])) = ?ks @ [x]"
      by (simp only: countLengths_keys_snoc if_False)
    with snoc.prems have keys: "?ks @ [x] = ks1 @ m # ks2" by (simp only:)
    show ?thesis
    proof (cases ks2 rule: rev_cases)
      case Nil
      with keys have "?ks @ [x] = ks1 @ [m]" by (simp only:)
      then have k: "?ks = ks1" and mx: "m = x" by simp_all
      from False have "x \<notin> set ls" using countLengths_keys_set [of ls] by simp
      then have "takeWhile (\<lambda>y. y \<noteq> x) (ls @ [x]) = ls"
        by (rule takeWhile_snoc_new)
      then have "set (takeWhile (\<lambda>y. y \<noteq> m) (ls @ [x])) = set ls"
        by (simp only: mx)
      also have "set ls = set ?ks" by (simp only: countLengths_keys_set)
      finally show ?thesis by (simp only: k subset_refl)
    next
      case (snoc ks2' y)
      with keys have "?ks @ [x] = (ks1 @ m # ks2') @ [y]" by simp
      then have "?ks = ks1 @ m # ks2'" by (simp only: append1_eq_conv)
      then show ?thesis by (rule step)
    qed
  qed
qed

subsection \<open>The mode\<close>

lemma fold_modeStep:
  "fold modeStep es (b, m) = (b', m') \<Longrightarrow>
   (\<forall>(k, f)\<in>set es. f \<le> b') \<and> b \<le> b' \<and>
   ((b' = b \<and> m' = m) \<or>
    (b < b' \<and> (\<exists>es1 es2. es = es1 @ (m', b') # es2 \<and> (\<forall>(k, f)\<in>set es1. f < b'))))"
proof (induction es arbitrary: b m)
  case Nil
  then show ?case by simp
next
  case (Cons e es)
  obtain k f where e: "e = (k, f)" by (cases e)
  show ?case
  proof (cases "f > b")
    case True
    with Cons.prems e have "fold modeStep es (f, k) = (b', m')"
      by (simp add: modeStep_def)
    from Cons.IH [OF this] have le: "\<forall>(k, f)\<in>set es. f \<le> b'" and fb: "f \<le> b'"
      and alt: "(b' = f \<and> m' = k) \<or>
        (f < b' \<and> (\<exists>es1 es2. es = es1 @ (m', b') # es2 \<and> (\<forall>(k, f)\<in>set es1. f < b')))"
      by auto
    from alt have "\<exists>es1 es2. e # es = es1 @ (m', b') # es2 \<and> (\<forall>(k, f)\<in>set es1. f < b')"
    proof
      assume "b' = f \<and> m' = k"
      then have "e # es = [] @ (m', b') # es" by (simp add: e)
      then show ?thesis by (intro exI [of _ "[]"] exI [of _ es]) simp
    next
      assume "f < b' \<and> (\<exists>es1 es2. es = es1 @ (m', b') # es2 \<and> (\<forall>(k, f)\<in>set es1. f < b'))"
      then obtain es1 es2 where "f < b'" "es = es1 @ (m', b') # es2"
        "\<forall>(k, f)\<in>set es1. f < b'" by blast
      then show ?thesis
        by (intro exI [of _ "e # es1"] exI [of _ es2]) (simp add: e)
    qed
    with le fb True e show ?thesis by auto
  next
    case False
    with Cons.prems e have "fold modeStep es (b, m) = (b', m')"
      by (simp add: modeStep_def)
    from Cons.IH [OF this] have le: "\<forall>(k, f)\<in>set es. f \<le> b'" and bb: "b \<le> b'"
      and alt: "(b' = b \<and> m' = m) \<or>
        (b < b' \<and> (\<exists>es1 es2. es = es1 @ (m', b') # es2 \<and> (\<forall>(k, f)\<in>set es1. f < b')))"
      by auto
    from alt have "(b' = b \<and> m' = m) \<or>
        (b < b' \<and> (\<exists>es1 es2. e # es = es1 @ (m', b') # es2 \<and> (\<forall>(k, f)\<in>set es1. f < b')))"
    proof
      assume "b' = b \<and> m' = m"
      then show ?thesis by simp
    next
      assume "b < b' \<and> (\<exists>es1 es2. es = es1 @ (m', b') # es2 \<and> (\<forall>(k, f)\<in>set es1. f < b'))"
      then obtain es1 es2 where "b < b'" "es = es1 @ (m', b') # es2"
        "\<forall>(k, f)\<in>set es1. f < b'" by blast
      with False have "b < b' \<and> e # es = (e # es1) @ (m', b') # es2 \<and>
          (\<forall>(k, f)\<in>set (e # es1). f < b')"
        by (simp add: e)
      then show ?thesis by blast
    qed
    with le bb False e show ?thesis by auto
  qed
qed

lemma pickMode_isMode:
  assumes ne: "ls \<noteq> []" and pm: "pickMode (countLengths ls) = (b', m')"
  shows "isMode ls m' \<and> b' = count_list ls m'"
proof -
  let ?es = "countLengths ls"
  from pm have "fold modeStep ?es (0, 0) = (b', m')" by (simp add: pickMode_def)
  from fold_modeStep [OF this]
  have le: "\<forall>(k, f)\<in>set ?es. f \<le> b'"
    and alt: "(b' = 0 \<and> m' = 0) \<or>
      (0 < b' \<and> (\<exists>es1 es2. ?es = es1 @ (m', b') # es2 \<and> (\<forall>(k, f)\<in>set es1. f < b')))"
    by auto
  from ne obtain x where x: "x \<in> set ls" by (cases ls) auto
  then have "(x, count_list ls x) \<in> set ?es" by (simp add: countLengths_entry)
  with le have "count_list ls x \<le> b'" by auto
  moreover from x have "count_list ls x > 0"
    using count_list_0_iff [of ls x] by simp
  ultimately have "0 < b'" by simp
  with alt obtain es1 es2 where es: "?es = es1 @ (m', b') # es2"
    and lt: "\<forall>(k, f)\<in>set es1. f < b'" by auto
  from es have "(m', b') \<in> set ?es" by simp
  then have m': "m' \<in> set ls" and b': "b' = count_list ls m'"
    by (simp_all add: countLengths_entry)
  have most: "\<forall>n\<in>set ls. count_list ls n \<le> count_list ls m'"
  proof
    fix n assume "n \<in> set ls"
    then have "(n, count_list ls n) \<in> set ?es" by (simp add: countLengths_entry)
    with le b' show "count_list ls n \<le> count_list ls m'" by auto
  qed
  have first: "\<forall>n\<in>set (takeWhile (\<lambda>x. x \<noteq> m') ls). count_list ls n < count_list ls m'"
  proof
    fix n assume n: "n \<in> set (takeWhile (\<lambda>x. x \<noteq> m') ls)"
    from es have "map fst ?es = map fst es1 @ m' # map fst es2" by simp
    from countLengths_keys_order [OF this] n have "n \<in> set (map fst es1)" by blast
    then obtain f where f: "(n, f) \<in> set es1" by auto
    with es have "(n, f) \<in> set ?es" by simp
    then have "f = count_list ls n" by (simp add: countLengths_entry)
    with lt f b' show "count_list ls n < count_list ls m'" by auto
  qed
  from m' most first b' show ?thesis by (simp add: isMode_def)
qed

lemma takeWhile_first:
  "m \<in> set ls \<Longrightarrow> m' \<in> set ls \<Longrightarrow> m \<noteq> m' \<Longrightarrow>
   m' \<in> set (takeWhile (\<lambda>x. x \<noteq> m) ls) \<or> m \<in> set (takeWhile (\<lambda>x. x \<noteq> m') ls)"
  by (induction ls) auto

lemma isMode_unique: "isMode ls m \<Longrightarrow> isMode ls m' \<Longrightarrow> m = m'"
proof (rule ccontr)
  assume a: "isMode ls m" and b: "isMode ls m'" and ne: "m \<noteq> m'"
  from a b have eq: "count_list ls m = count_list ls m'"
    by (auto simp: isMode_def intro: antisym)
  from a b ne takeWhile_first [of m ls m']
  have "m' \<in> set (takeWhile (\<lambda>x. x \<noteq> m) ls) \<or> m \<in> set (takeWhile (\<lambda>x. x \<noteq> m') ls)"
    by (simp add: isMode_def)
  with a b eq show False by (auto simp: isMode_def)
qed

subsection \<open>The score\<close>

lemma count_filter_length:
  "count_list ls m + length (filter (\<lambda>n. n \<noteq> m) ls) = length ls"
  by (induction ls) auto

lemma fold_add_sum_list:
  "fold (\<lambda>n sum. sum + f n) ls (a::int) = a + sum_list (map f ls)"
  by (induction ls arbitrary: a) auto

lemma scoreTable_Infinity_iff:
  "scoreTable t = Infinity \<longleftrightarrow>
     (filter (\<lambda>n. n > 0) (map length t) = [] \<or>
      Max (set (filter (\<lambda>n. n > 0) (map length t))) \<le> 1)"
  by (auto simp: scoreTable_def Let_def mathMax_Max split: prod.splits)

lemma scoreTable_Finite:
  assumes "scoreTable t \<noteq> Infinity"
  defines "ls \<equiv> filter (\<lambda>n. n > 0) (map length t)"
  shows "\<exists>m. isMode ls m \<and>
     scoreTable t = Finite (10 * int (length (filter (\<lambda>n. n \<noteq> m) ls))
                            + (\<Sum>n\<leftarrow>ls. \<bar>int n - int m\<bar>))"
proof -
  obtain b' m' where pm: "pickMode (countLengths ls) = (b', m')"
    by (cases "pickMode (countLengths ls)") auto
  from assms(1) have ne: "ls \<noteq> []" and big: "\<not> mathMax ls \<le> 1"
    by (auto simp: scoreTable_def Let_def ls_def split: if_splits)
  from pickMode_isMode [OF ne pm] have mode: "isMode ls m'" and b': "b' = count_list ls m'"
    by simp_all
  have "int (length ls) - int b' = int (length (filter (\<lambda>n. n \<noteq> m') ls))"
    using count_filter_length [of ls m'] b' by simp
  with ne big pm have "scoreTable t =
      Finite (10 * int (length (filter (\<lambda>n. n \<noteq> m') ls)) + (\<Sum>n\<leftarrow>ls. \<bar>int n - int m'\<bar>))"
    by (simp add: scoreTable_def Let_def ls_def [symmetric] fold_add_sum_list)
  with mode show ?thesis by blast
qed

text \<open>
  C3: with the rows of zero cells discarded, the score is infinite exactly when no row is
  left or the maximum cell count is at most 1; otherwise it is 10 times the number of rows
  whose cell count differs from the mode plus the sum over the rows of the distance
  between the cell count and the mode, where the mode is the most frequent cell count and,
  among equally frequent ones, the one that occurs first. There is only one such mode.
\<close>

theorem C3_consistency_score:
  "(scoreTable t = Infinity \<longleftrightarrow>
      (filter (\<lambda>n. n > 0) (map length t) = [] \<or>
       Max (set (filter (\<lambda>n. n > 0) (map length t))) \<le> 1)) \<and>
   (scoreTable t \<noteq> Infinity \<longrightarrow>
      (\<exists>m. isMode (filter (\<lambda>n. n > 0) (map length t)) m \<and>
        scoreTable t =
          Finite (10 * int (length (filter (\<lambda>n. n \<noteq> m) (filter (\<lambda>n. n > 0) (map length t))))
                  + (\<Sum>n\<leftarrow>filter (\<lambda>n. n > 0) (map length t). \<bar>int n - int m\<bar>)))) \<and>
   (\<forall>ls m m'. isMode ls m \<and> isMode ls m' \<longrightarrow> m = m')"
  using scoreTable_Infinity_iff [of t] scoreTable_Finite [of t] isMode_unique
  by blast

text \<open>The definitions that evaluate the score of a concrete table.\<close>

lemmas eval_score =
  scoreTable_def mathMax_def countLengths_def mapGetOr0_def pickMode_def modeStep_def Let_def

text \<open>
  An instance of C3 with cell counts 2, 0, 1, 1, 3, 3: the counts 1 and 3 are equally
  frequent, the mode is 1, and the score is \<open>10 * 3 + 5\<close>.
\<close>

theorem C3_consistency_score_witness:
  "scoreTable [[[], []], [], [[]], [[]], [[], [], []], [[], [], []]] \<noteq> Infinity \<and>
   filter (\<lambda>n. n > 0)
       (map length ([[[], []], [], [[]], [[]], [[], [], []], [[], [], []]] :: table))
     = [2, 1, 1, 3, 3] \<and>
   isMode [2, 1, 1, 3, 3] 1 \<and> \<not> isMode [2, 1, 1, 3, 3] 3 \<and>
   scoreTable [[[], []], [], [[]], [[]], [[], [], []], [[], [], []]] = Finite 35"
proof -
  let ?T = "[[[], []], [], [[]], [[]], [[], [], []], [[], [], []]] :: table"
  have ls: "filter (\<lambda>n. n > 0) (map length ?T) = [2, 1, 1, 3, 3]" by simp
  have score: "scoreTable ?T = Finite 35" by (simp add: eval_score)
  have m1: "isMode [2, 1, 1, 3, 3] 1" by (simp add: isMode_def)
  have m3: "\<not> isMode [2, 1, 1, 3, 3] 3" by (simp add: isMode_def)
  from C3_consistency_score [of ?T]
  have "scoreTable ?T = Infinity \<longleftrightarrow>
      (filter (\<lambda>n. n > 0) (map length ?T) = [] \<or>
       Max (set (filter (\<lambda>n. n > 0) (map length ?T))) \<le> 1)"
    by (rule conjunct1)
  then have ne: "scoreTable ?T \<noteq> Infinity" by (simp only: ls) simp
  from ne ls m1 m3 score show ?thesis by - (intro conjI, assumption+)
qed

end
